theory Spec2Isabelle
  imports Main "HOL-Library.Word"
begin

unbundle bit_operations_syntax

chapter \<open>A fixed-heap allocator and two SPI memory drivers\<close>

text \<open>
  The development embeds three components of the repository:
  \<^item> \<^verbatim>\<open>src/allocator/alloc.h\<close>: the page/bitmap allocator;
  \<^item> \<^verbatim>\<open>src/chip/src/25LC040A.cpp\<close>: the EEPROM driver;
  \<^item> \<^verbatim>\<open>src/chip/src/W25Q128.cpp\<close>: the NOR flash driver.
  All definitions come first, the lemmas and theorems follow.
\<close>

type_synonym u8 = "8 word"
type_synonym u16 = "16 word"
type_synonym u32 = "32 word"
type_synonym size_t = "64 word"

section \<open>The allocator: data\<close>

definition HEAP_SIZE :: nat where "HEAP_SIZE = 64 * 1024"
definition PAGE_SIZE :: nat where "PAGE_SIZE = 1024"
definition PAGE_SHIFT :: nat where "PAGE_SHIFT = 10"
definition PAGE_HEADER_SIZE :: nat where "PAGE_HEADER_SIZE = 16"
definition BLOCK_SMALL :: nat where "BLOCK_SMALL = 15"
definition BLOCK_BIG :: nat where "BLOCK_BIG = 180"
definition ALIGNED_BLOCK_SMALL :: nat where "ALIGNED_BLOCK_SMALL = 16"
definition ALIGNED_BLOCK_BIG :: nat where "ALIGNED_BLOCK_BIG = 192"
definition SMALL_SEGMENTS :: nat where
  "SMALL_SEGMENTS = (PAGE_SIZE - PAGE_HEADER_SIZE) div ALIGNED_BLOCK_SMALL"
definition BIG_SEGMENTS :: nat where
  "BIG_SEGMENTS = (PAGE_SIZE - PAGE_HEADER_SIZE) div ALIGNED_BLOCK_BIG"
definition PAGE_COUNT :: nat where "PAGE_COUNT = HEAP_SIZE div PAGE_SIZE"
definition UINT16_MAX :: u16 where "UINT16_MAX = 65535"

datatype page_type_t = PAGE_FREE | PAGE_SMALL | PAGE_BIG

record h_page =
  used_segments :: u16
  type :: page_type_t

text \<open>
  The two static arrays. \<open>heap\<close> is indexed by the byte offset from \<^verbatim>\<open>&heap[0]\<close>,
  \<open>page_table\<close> by the page index; the code only ever indexes them below
  \<open>HEAP_SIZE\<close> and \<open>PAGE_COUNT\<close>.
\<close>

record allocator =
  heap :: "nat \<Rightarrow> u8"
  page_table :: "nat \<Rightarrow> h_page"

text \<open>
  A \<^verbatim>\<open>void*\<close> handed to or returned by the allocator: \<^verbatim>\<open>NULL\<close>, or an address,
  written as its signed byte distance from \<^verbatim>\<open>&heap[0]\<close> (so \<open>Ptr 16\<close> is
  \<^verbatim>\<open>heap_base + 16\<close>, and a foreign pointer has a negative distance or one of at
  least \<open>HEAP_SIZE\<close>).
\<close>

datatype pointer = NULL | Ptr int

section \<open>The allocator: operations\<close>

definition page_base_addr :: "nat \<Rightarrow> nat" where
  "page_base_addr page_index = push_bit PAGE_SHIFT page_index"

definition page_header_addr :: "nat \<Rightarrow> nat" where
  "page_header_addr page_index = page_base_addr page_index"

definition page_data_addr :: "nat \<Rightarrow> nat" where
  "page_data_addr page_index = page_base_addr page_index + PAGE_HEADER_SIZE"

text \<open>
  \<^verbatim>\<open>find_free_block\<close>: the loop counter is a \<^verbatim>\<open>uint16_t\<close>; \<open>bitmap\<close> is the offset of
  the bitmap's first byte in the heap.
\<close>

function find_free_block_loop :: "(nat \<Rightarrow> u8) \<Rightarrow> nat \<Rightarrow> u16 \<Rightarrow> u16 \<Rightarrow> u16" where
  "find_free_block_loop hp bitmap bit_count i =
     (if i < bit_count then
        (if hp (bitmap + unat (drop_bit 3 i)) AND (push_bit (unat (i AND 7)) 1 :: u8) = 0
         then i
         else find_free_block_loop hp bitmap bit_count (i + 1))
      else UINT16_MAX)"
  by pat_completeness auto
termination
proof (relation "measure (\<lambda>(hp, bitmap, bit_count, i). unat bit_count - unat i)")
  show "wf (measure (\<lambda>(hp, bitmap, bit_count, i). unat bit_count - unat i))"
    by simp
next
  fix hp :: "nat \<Rightarrow> u8" and bitmap :: nat and bit_count i :: u16
  assume lt: "i < bit_count"
  then have "unat i < unat bit_count"
    by (simp add: word_less_nat_alt)
  moreover have "unat (i + 1) = unat i + 1"
    using lt by unat_arith
  ultimately show "((hp, bitmap, bit_count, i + 1), (hp, bitmap, bit_count, i))
      \<in> measure (\<lambda>(hp, bitmap, bit_count, i). unat bit_count - unat i)"
    by simp
qed

declare find_free_block_loop.simps [simp del]

definition find_free_block :: "(nat \<Rightarrow> u8) \<Rightarrow> nat \<Rightarrow> u16 \<Rightarrow> u16" where
  "find_free_block hp bitmap bit_count = find_free_block_loop hp bitmap bit_count 0"

definition bitmap_set :: "(nat \<Rightarrow> u8) \<Rightarrow> nat \<Rightarrow> u16 \<Rightarrow> (nat \<Rightarrow> u8)" where
  "bitmap_set hp bitmap index =
     hp(bitmap + unat (drop_bit 3 index) :=
          hp (bitmap + unat (drop_bit 3 index)) OR push_bit (unat (index AND 7)) 1)"

definition bitmap_clear :: "(nat \<Rightarrow> u8) \<Rightarrow> nat \<Rightarrow> u16 \<Rightarrow> (nat \<Rightarrow> u8)" where
  "bitmap_clear hp bitmap index =
     hp(bitmap + unat (drop_bit 3 index) :=
          hp (bitmap + unat (drop_bit 3 index)) AND NOT (push_bit (unat (index AND 7)) 1))"

definition bitmap_is_set :: "(nat \<Rightarrow> u8) \<Rightarrow> nat \<Rightarrow> u16 \<Rightarrow> bool" where
  "bitmap_is_set hp bitmap index \<longleftrightarrow>
     hp (bitmap + unat (drop_bit 3 index)) AND push_bit (unat (index AND 7)) 1 \<noteq> 0"

text \<open>\<^verbatim>\<open>memset(dst, c, n)\<close> of the C library, on the heap array.\<close>

definition memset :: "(nat \<Rightarrow> u8) \<Rightarrow> nat \<Rightarrow> u8 \<Rightarrow> nat \<Rightarrow> (nat \<Rightarrow> u8)" where
  "memset hp dst c n = (\<lambda>a. if dst \<le> a \<and> a < dst + n then c else hp a)"

definition set_type :: "allocator \<Rightarrow> nat \<Rightarrow> page_type_t \<Rightarrow> allocator" where
  "set_type s page_index t =
     s\<lparr>page_table := (page_table s)(page_index := (page_table s page_index)\<lparr>type := t\<rparr>)\<rparr>"

definition set_used :: "allocator \<Rightarrow> nat \<Rightarrow> u16 \<Rightarrow> allocator" where
  "set_used s page_index n =
     s\<lparr>page_table :=
         (page_table s)(page_index := (page_table s page_index)\<lparr>used_segments := n\<rparr>)\<rparr>"

definition page_set_free :: "allocator \<Rightarrow> nat \<Rightarrow> allocator" where
  "page_set_free s page_index =
     (let s1 = set_type s page_index PAGE_FREE;
          s2 = set_used s1 page_index 0
      in s2\<lparr>heap := memset (heap s2) (page_header_addr page_index) 0 PAGE_HEADER_SIZE\<rparr>)"

definition page_set_small :: "allocator \<Rightarrow> nat \<Rightarrow> allocator" where
  "page_set_small s page_index = set_used (set_type s page_index PAGE_SMALL) page_index 0"

definition page_set_big :: "allocator \<Rightarrow> nat \<Rightarrow> allocator" where
  "page_set_big s page_index = set_used (set_type s page_index PAGE_BIG) page_index 0"

function alloc_init_loop :: "allocator \<Rightarrow> nat \<Rightarrow> allocator" where
  "alloc_init_loop s i =
     (if i < PAGE_COUNT then alloc_init_loop (page_set_free s i) (i + 1) else s)"
  by pat_completeness auto
termination
  by (relation "measure (\<lambda>(s, i). PAGE_COUNT - i)") auto

declare alloc_init_loop.simps [simp del]

definition alloc_init :: "allocator \<Rightarrow> allocator" where
  "alloc_init s = alloc_init_loop s 0"

text \<open>
  \<^verbatim>\<open>alloc_small\<close> and \<^verbatim>\<open>alloc_big\<close> are the same text in the source up to the page
  type, the segment count, the slot size and the \<^verbatim>\<open>page_set_*\<close> function used. The
  body is written once here, over these four, and instantiated twice below. Each of
  the two \<^verbatim>\<open>for\<close> loops is a function of the page counter; \<open>None\<close> means that the
  loop ran to \<open>PAGE_COUNT\<close> without returning.
\<close>

function alloc_scan ::
  "page_type_t \<Rightarrow> nat \<Rightarrow> nat \<Rightarrow> allocator \<Rightarrow> nat \<Rightarrow> (pointer \<times> allocator) option" where
  "alloc_scan cls segments slot s page =
     (if page < PAGE_COUNT then
        (if type (page_table s page) = cls \<and> unat (used_segments (page_table s page)) < segments
         then
           (let bitmap = page_header_addr page;
                free_block = find_free_block (heap s) bitmap (of_nat segments)
            in if free_block \<noteq> UINT16_MAX then
                 (let s1 = s\<lparr>heap := bitmap_set (heap s) bitmap free_block\<rparr>;
                      s2 = set_used s1 page (used_segments (page_table s1 page) + 1)
                  in Some (Ptr (int (page_data_addr page + unat free_block * slot)), s2))
               else alloc_scan cls segments slot s (page + 1))
         else alloc_scan cls segments slot s (page + 1))
      else None)"
  by pat_completeness auto
termination
  by (relation "measure (\<lambda>(cls, segments, slot, s, page). PAGE_COUNT - page)") auto

declare alloc_scan.simps [simp del]

function alloc_fresh ::
  "(allocator \<Rightarrow> nat \<Rightarrow> allocator) \<Rightarrow> allocator \<Rightarrow> nat \<Rightarrow> (pointer \<times> allocator) option" where
  "alloc_fresh page_set s page =
     (if page < PAGE_COUNT then
        (if type (page_table s page) = PAGE_FREE then
           (let s1 = page_set s page;
                bitmap = page_header_addr page;
                s2 = s1\<lparr>heap := bitmap_set (heap s1) bitmap 0\<rparr>;
                s3 = set_used s2 page 1
            in Some (Ptr (int (page_data_addr page)), s3))
         else alloc_fresh page_set s (page + 1))
      else None)"
  by pat_completeness auto
termination
  by (relation "measure (\<lambda>(page_set, s, page). PAGE_COUNT - page)") auto

declare alloc_fresh.simps [simp del]

definition alloc_small :: "allocator \<Rightarrow> pointer \<times> allocator" where
  "alloc_small s =
     (case alloc_scan PAGE_SMALL SMALL_SEGMENTS ALIGNED_BLOCK_SMALL s 0 of
        Some r \<Rightarrow> r
      | None \<Rightarrow>
          (case alloc_fresh page_set_small s 0 of
             Some r \<Rightarrow> r
           | None \<Rightarrow> (NULL, s)))"

definition alloc_big :: "allocator \<Rightarrow> pointer \<times> allocator" where
  "alloc_big s =
     (case alloc_scan PAGE_BIG BIG_SEGMENTS ALIGNED_BLOCK_BIG s 0 of
        Some r \<Rightarrow> r
      | None \<Rightarrow>
          (case alloc_fresh page_set_big s 0 of
             Some r \<Rightarrow> r
           | None \<Rightarrow> (NULL, s)))"

definition custom_malloc :: "allocator \<Rightarrow> size_t \<Rightarrow> pointer \<times> allocator" where
  "custom_malloc s sz =
     (if sz = 0 then (NULL, s)
      else if unat sz \<le> BLOCK_SMALL then alloc_small s
      else if unat sz \<le> BLOCK_BIG then alloc_big s
      else (NULL, s))"

text \<open>
  The two branches of \<^verbatim>\<open>custom_free\<close> differ in the slot size and the segment count
  only; \<open>free_in_page\<close> is that branch. \<^verbatim>\<open>offset_in_page\<close> is a \<^verbatim>\<open>size_t\<close>: the
  pointer difference converted to unsigned, so a pointer below the data area wraps
  around. \<^verbatim>\<open>bit_index\<close> is passed to the bitmap functions as a \<^verbatim>\<open>uint16_t\<close>.
\<close>

definition free_in_page :: "allocator \<Rightarrow> int \<Rightarrow> nat \<Rightarrow> nat \<Rightarrow> nat \<Rightarrow> allocator" where
  "free_in_page s a page_index segments slot =
     (let offset_in_page = (word_of_int (a - int (page_data_addr page_index)) :: size_t)
      in if offset_in_page mod of_nat slot \<noteq> 0 then s
         else
           (let bit_index = offset_in_page div of_nat slot
            in if bit_index \<ge> of_nat segments then s
               else
                 (let bitmap = page_header_addr page_index
                  in if \<not> bitmap_is_set (heap s) bitmap (ucast bit_index) then s
                     else
                       (let s1 = s\<lparr>heap := bitmap_clear (heap s) bitmap (ucast bit_index)\<rparr>;
                            s2 = set_used s1 page_index
                                   (used_segments (page_table s1 page_index) - 1)
                        in if used_segments (page_table s2 page_index) = 0
                           then page_set_free s2 page_index
                           else s2))))"

definition custom_free :: "allocator \<Rightarrow> pointer \<Rightarrow> allocator" where
  "custom_free s ptr =
     (case ptr of
        NULL \<Rightarrow> s
      | Ptr a \<Rightarrow>
          if a < 0 \<or> a \<ge> int HEAP_SIZE then s
          else
            (let offset = nat a;
                 page_index = drop_bit PAGE_SHIFT offset
             in if used_segments (page_table s page_index) = 0 then s
                else if type (page_table s page_index) = PAGE_SMALL
                  then free_in_page s a page_index SMALL_SEGMENTS ALIGNED_BLOCK_SMALL
                else if type (page_table s page_index) = PAGE_BIG
                  then free_in_page s a page_index BIG_SEGMENTS ALIGNED_BLOCK_BIG
                else s))"

section \<open>The allocator: notions used to state its properties\<close>

text \<open>
  Bit \<open>i\<close> of the bitmap that starts at heap offset \<open>bitmap\<close>, and the population
  count of its first \<open>n\<close> bits.
\<close>

definition seg_bit :: "(nat \<Rightarrow> u8) \<Rightarrow> nat \<Rightarrow> nat \<Rightarrow> bool" where
  "seg_bit hp bitmap i \<longleftrightarrow> bit (hp (bitmap + i div 8)) (i mod 8)"

definition popcount :: "(nat \<Rightarrow> u8) \<Rightarrow> nat \<Rightarrow> nat \<Rightarrow> nat" where
  "popcount hp bitmap n = length (filter (seg_bit hp bitmap) [0..<n])"

text \<open>
  The state changes of the allocation loops, named: \<open>take_slot\<close> is the body of the
  first loop of \<^verbatim>\<open>alloc_small\<close>/\<^verbatim>\<open>alloc_big\<close> once a free block is found,
  \<open>open_page\<close> the body of the second loop, \<open>scan_hit\<close> the condition under which the
  first loop returns at a page.
\<close>

definition take_slot :: "allocator \<Rightarrow> nat \<Rightarrow> u16 \<Rightarrow> allocator" where
  "take_slot s q fb =
     set_used (s\<lparr>heap := bitmap_set (heap s) (page_header_addr q) fb\<rparr>) q
       (used_segments (page_table s q) + 1)"

definition open_page :: "(allocator \<Rightarrow> nat \<Rightarrow> allocator) \<Rightarrow> allocator \<Rightarrow> nat \<Rightarrow> allocator" where
  "open_page page_set s q =
     set_used ((page_set s q)\<lparr>heap := bitmap_set (heap (page_set s q)) (page_header_addr q) 0\<rparr>) q 1"

definition scan_hit :: "page_type_t \<Rightarrow> nat \<Rightarrow> allocator \<Rightarrow> nat \<Rightarrow> bool" where
  "scan_hit cls segments s p \<longleftrightarrow>
     type (page_table s p) = cls \<and> unat (used_segments (page_table s p)) < segments \<and>
     find_free_block (heap s) (page_header_addr p) (of_nat segments) \<noteq> UINT16_MAX"

text \<open>The invariant of the spec, per page and for the whole page table.\<close>

definition header_zero :: "(nat \<Rightarrow> u8) \<Rightarrow> nat \<Rightarrow> bool" where
  "header_zero hp page \<longleftrightarrow> (\<forall>j \<in> {0..<PAGE_HEADER_SIZE}. hp (page_header_addr page + j) = 0)"

definition page_ok :: "allocator \<Rightarrow> nat \<Rightarrow> bool" where
  "page_ok s p =
     (case type (page_table s p) of
        PAGE_FREE \<Rightarrow> used_segments (page_table s p) = 0 \<and> header_zero (heap s) p
      | PAGE_SMALL \<Rightarrow>
          unat (used_segments (page_table s p)) =
            popcount (heap s) (page_header_addr p) SMALL_SEGMENTS
      | PAGE_BIG \<Rightarrow>
          unat (used_segments (page_table s p)) =
            popcount (heap s) (page_header_addr p) BIG_SEGMENTS)"

definition alloc_inv :: "allocator \<Rightarrow> bool" where
  "alloc_inv s \<longleftrightarrow> (\<forall>p \<in> {0..<PAGE_COUNT}. page_ok s p)"

text \<open>
  The state change of \<^verbatim>\<open>custom_free\<close> once all its checks have passed, for the bit
  \<open>idx\<close> of page \<open>p\<close>.
\<close>

definition release_slot :: "allocator \<Rightarrow> nat \<Rightarrow> u16 \<Rightarrow> allocator" where
  "release_slot s p idx =
     (let s1 = s\<lparr>heap := bitmap_clear (heap s) (page_header_addr p) idx\<rparr>;
          s2 = set_used s1 p (used_segments (page_table s1 p) - 1)
      in if used_segments (page_table s2 p) = 0 then page_set_free s2 p else s2)"

text \<open>
  The states reachable from \<^verbatim>\<open>alloc_init()\<close> (called on any memory contents) by calls
  of \<^verbatim>\<open>custom_malloc\<close> and \<^verbatim>\<open>custom_free\<close> with any arguments.
\<close>

inductive reachable :: "allocator \<Rightarrow> bool" where
  init: "reachable (alloc_init s0)"
| malloc: "reachable s \<Longrightarrow> reachable (snd (custom_malloc s sz))"
| free: "reachable s \<Longrightarrow> reachable (custom_free s ptr)"

text \<open>The page index \<^verbatim>\<open>custom_free\<close> computes for an address inside the heap.\<close>

definition page_of :: "int \<Rightarrow> nat" where
  "page_of a = drop_bit PAGE_SHIFT (nat a)"

text \<open>
  Some memory contents before \<^verbatim>\<open>alloc_init()\<close>, for concrete instances: every byte
  \<open>0xAA\<close>, every page table entry marked as a BIG page with 7 used segments.
\<close>

definition garbage :: allocator where
  "garbage = \<lparr>heap = (\<lambda>_. 0xAA), page_table = (\<lambda>_. \<lparr>used_segments = 7, type = PAGE_BIG\<rparr>)\<rparr>"

text \<open>A sequence of \<^verbatim>\<open>custom_malloc\<close> calls with no release in between, and its results.\<close>

fun alloc_many :: "size_t list \<Rightarrow> allocator \<Rightarrow> pointer list \<times> allocator" where
  "alloc_many [] s = ([], s)"
| "alloc_many (sz # szs) s =
     (let (p, s1) = custom_malloc s sz;
          (ps, s2) = alloc_many szs s1
      in (p # ps, s2))"

text \<open>
  The states in which exactly the first \<open>k\<close> small slots, in page and slot order, are
  taken and nothing else is; \<open>slot_addr i\<close> is the address of the \<open>i\<close>-th small slot in
  that order.
\<close>

definition filled :: "nat \<Rightarrow> allocator \<Rightarrow> bool" where
  "filled k s \<longleftrightarrow>
     (\<forall>p \<in> {0..<PAGE_COUNT}.
        type (page_table s p) = (if p * SMALL_SEGMENTS < k then PAGE_SMALL else PAGE_FREE) \<and>
        unat (used_segments (page_table s p)) = min SMALL_SEGMENTS (k - p * SMALL_SEGMENTS) \<and>
        (\<forall>i \<in> {0..<SMALL_SEGMENTS}.
           seg_bit (heap s) (page_header_addr p) i \<longleftrightarrow> i < k - p * SMALL_SEGMENTS))"

definition slot_addr :: "nat \<Rightarrow> int" where
  "slot_addr i =
     int (page_data_addr (i div SMALL_SEGMENTS) + (i mod SMALL_SEGMENTS) * ALIGNED_BLOCK_SMALL)"

text \<open>
  Notions for the allocation algorithm of the specification. A page \<open>has_room\<close> for a
  class when it has the type of the class, fewer used segments than the class has
  slots, and a clear bit among the bits of these slots (in the states reachable from
  \<^verbatim>\<open>alloc_init()\<close> the third follows from the first two). \<open>mark_slot s p k e\<close> is the
  state \<open>s\<close> with bit \<open>k\<close> of the header bitmap of page \<open>p\<close> set and the page table entry
  of \<open>p\<close> replaced by \<open>e\<close>; nothing else differs.
\<close>

definition has_room :: "page_type_t \<Rightarrow> nat \<Rightarrow> allocator \<Rightarrow> nat \<Rightarrow> bool" where
  "has_room cls segments s p \<longleftrightarrow>
     type (page_table s p) = cls \<and> unat (used_segments (page_table s p)) < segments \<and>
     (\<exists>i \<in> {0..<segments}. \<not> seg_bit (heap s) (page_header_addr p) i)"

definition mark_slot :: "allocator \<Rightarrow> nat \<Rightarrow> nat \<Rightarrow> h_page \<Rightarrow> allocator" where
  "mark_slot s p k e =
     \<lparr>heap = (heap s)(page_header_addr p + k div 8 :=
                heap s (page_header_addr p + k div 8) OR push_bit (k mod 8) 1),
      page_table = (page_table s)(p := e)\<rparr>"


section \<open>The SPI bus\<close>

text \<open>
  Both drivers talk to their chip through \<^verbatim>\<open>IDriver\<close> (\<^verbatim>\<open>select\<close>, \<^verbatim>\<open>deselect\<close>,
  \<^verbatim>\<open>transfer\<close>). The bus is modelled by the log of all calls made so far; the byte a
  \<^verbatim>\<open>transfer\<close> returns is chosen by the device from the whole history and the byte
  sent. A driver object is its bus log and its latched \<^verbatim>\<open>_errorCode\<close>.
\<close>

datatype bus_event = Select | Deselect | Transfer u8 u8

type_synonym device = "bus_event list \<Rightarrow> u8 \<Rightarrow> u8"

record 'e chip =
  bus :: "bus_event list"
  errorCode :: 'e

definition select :: "'e chip \<Rightarrow> 'e chip" where
  "select s = s\<lparr>bus := bus s @ [Select]\<rparr>"

definition deselect :: "'e chip \<Rightarrow> 'e chip" where
  "deselect s = s\<lparr>bus := bus s @ [Deselect]\<rparr>"

definition transfer :: "device \<Rightarrow> 'e chip \<Rightarrow> u8 \<Rightarrow> u8 \<times> 'e chip" where
  "transfer dev s byte =
     (dev (bus s) byte, s\<lparr>bus := bus s @ [Transfer byte (dev (bus s) byte)]\<rparr>)"

text \<open>A caller's buffer: \<open>None\<close> is the null pointer.\<close>

type_synonym buffer = "(nat \<Rightarrow> u8) option"

text \<open>
  The operands of \<^verbatim>\<open>uint16_t\<close> arithmetic are promoted to \<^verbatim>\<open>int\<close>, which has 32 bits
  on the hosted platforms the repository builds for (\<^verbatim>\<open>alloc.h\<close> computes
  \<^verbatim>\<open>64 * 1024\<close> in \<^verbatim>\<open>int\<close>); comparisons of promoted values are signed.
\<close>

type_synonym c_int = "32 word"

text \<open>The driver of \<^verbatim>\<open>example.cpp\<close>: every transfer returns \<^verbatim>\<open>0b00000010\<close>.\<close>

definition Driver :: device where
  "Driver = (\<lambda>log byte. 0x02)"

section \<open>The EEPROM driver (25LC040A)\<close>

datatype eeprom_error =
  EEPROM_OK | EEPROM_ADDRESS_OUT_OF_RANGE | EEPROM_INDEX_BIT_OUT_OF_RANGE
  | EEPROM_WRITE_NOT_ENABLED | EEPROM_NULL_POINTER

definition EEPROM_READ :: u8 where "EEPROM_READ = 0x03"
definition EEPROM_WRITE :: u8 where "EEPROM_WRITE = 0x02"
definition EEPROM_WREN :: u8 where "EEPROM_WREN = 0x06"
definition EEPROM_RDSR :: u8 where "EEPROM_RDSR = 0x05"
definition EEPROM_WIP :: u8 where "EEPROM_WIP = 0x01"
definition EEPROM_WEL :: u8 where "EEPROM_WEL = 0x02"
definition EEPROM_MAX_ADDR :: u16 where "EEPROM_MAX_ADDR = 0x1FF"
definition EEPROM_PAGE_SIZE :: u16 where "EEPROM_PAGE_SIZE = 16"

definition eeprom_readStatus :: "device \<Rightarrow> eeprom_error chip \<Rightarrow> u8 \<times> eeprom_error chip" where
  "eeprom_readStatus dev s =
     (let s1 = select s;
          s2 = snd (transfer dev s1 EEPROM_RDSR);
          (status, s3) = transfer dev s2 0xFF;
          s4 = deselect s3
      in (status, s4))"

text \<open>\<^verbatim>\<open>wait\<close> polls the status register until WIP is clear; it need not return.\<close>

partial_function (option) eeprom_wait :: "device \<Rightarrow> eeprom_error chip \<Rightarrow> eeprom_error chip option" where
  "eeprom_wait dev s =
     (let (status, s1) = eeprom_readStatus dev s
      in if status AND EEPROM_WIP \<noteq> 0 then eeprom_wait dev s1 else Some s1)"

declare eeprom_wait.simps [code]

definition buildAndSendInstruction ::
  "device \<Rightarrow> eeprom_error chip \<Rightarrow> u8 \<Rightarrow> u16 \<Rightarrow> eeprom_error chip" where
  "buildAndSendInstruction dev s instr address =
     (let cmd = (if drop_bit 8 address AND 0x01 \<noteq> 0 then instr OR 0x08 else instr)
      in snd (transfer dev s cmd))"

definition eeprom_readArray ::
  "device \<Rightarrow> eeprom_error chip \<Rightarrow> u16 \<Rightarrow> u16 \<Rightarrow> buffer \<Rightarrow> eeprom_error chip \<times> buffer" where
  "eeprom_readArray dev s address len out =
     (if len = 0 then (s\<lparr>errorCode := EEPROM_OK\<rparr>, out)
      else if (ucast EEPROM_MAX_ADDR :: c_int) <s ucast address + ucast len - 1
        then (s\<lparr>errorCode := EEPROM_ADDRESS_OUT_OF_RANGE\<rparr>, out)
      else case out of
        None \<Rightarrow> (s\<lparr>errorCode := EEPROM_NULL_POINTER\<rparr>, out)
      | Some buf \<Rightarrow>
          (let s1 = select s;
               s2 = buildAndSendInstruction dev s1 EEPROM_READ address;
               s3 = snd (transfer dev s2 (ucast (address AND 0xFF)));
               (s4, buf') = fold (\<lambda>i (t, b). (snd (transfer dev t 0xFF), b(i := fst (transfer dev t 0xFF))))
                              [0..<unat len] (s3, buf);
               s5 = deselect s4
           in (s5\<lparr>errorCode := EEPROM_OK\<rparr>, Some buf')))"

partial_function (option) eeprom_writeArray_loop ::
  "device \<Rightarrow> eeprom_error chip \<Rightarrow> u16 \<Rightarrow> u16 \<Rightarrow> u16 \<Rightarrow> (nat \<Rightarrow> u8) \<Rightarrow> eeprom_error chip option" where
  "eeprom_writeArray_loop dev s address offset len data =
     (if len > 0 then
        (let page_offset = address mod EEPROM_PAGE_SIZE;
             chunk = min (EEPROM_PAGE_SIZE - page_offset) len;
             s1 = select s;
             s2 = snd (transfer dev s1 EEPROM_WREN);
             s3 = deselect s2;
             (state, s4) = eeprom_readStatus dev s3
         in if state AND EEPROM_WEL = 0 then Some (s4\<lparr>errorCode := EEPROM_WRITE_NOT_ENABLED\<rparr>)
            else
              (let s5 = select s4;
                   s6 = buildAndSendInstruction dev s5 EEPROM_WRITE address;
                   s7 = snd (transfer dev s6 (ucast (address AND 0xFF)));
                   s8 = fold (\<lambda>j t. snd (transfer dev t (data (unat offset + j)))) [0..<unat chunk] s7;
                   s9 = deselect s8
               in case eeprom_wait dev s9 of
                    None \<Rightarrow> None
                  | Some s10 \<Rightarrow>
                      eeprom_writeArray_loop dev s10 (address + chunk) (offset + chunk) (len - chunk) data))
      else Some (s\<lparr>errorCode := EEPROM_OK\<rparr>))"

declare eeprom_writeArray_loop.simps [code]

definition eeprom_writeArray ::
  "device \<Rightarrow> eeprom_error chip \<Rightarrow> u16 \<Rightarrow> u16 \<Rightarrow> buffer \<Rightarrow> eeprom_error chip option" where
  "eeprom_writeArray dev s address len data =
     (if len = 0 then Some (s\<lparr>errorCode := EEPROM_OK\<rparr>)
      else if (ucast EEPROM_MAX_ADDR :: c_int) <s ucast address + ucast len - 1
        then Some (s\<lparr>errorCode := EEPROM_ADDRESS_OUT_OF_RANGE\<rparr>)
      else case data of
        None \<Rightarrow> Some (s\<lparr>errorCode := EEPROM_NULL_POINTER\<rparr>)
      | Some d \<Rightarrow> eeprom_writeArray_loop dev s address 0 len d)"

section \<open>The NOR flash driver (W25Q128)\<close>

datatype nor_error =
  NOR_OK | NOR_ADDRESS_OUT_OF_RANGE | NOR_BAD_ADDRESS_ALIGNMENT | NOR_INDEX_BIT_OUT_OF_RANGE
  | NOR_WRITE_NOT_ENABLED | NOR_NULL_POINTER | NOR_OUT_OF_PAGE | NOR_NEEDS_ERASE

definition NOR_READ :: u8 where "NOR_READ = 0x03"
definition NOR_PAGE_PROGRAM :: u8 where "NOR_PAGE_PROGRAM = 0x02"
definition NOR_WRITE_ENABLE :: u8 where "NOR_WRITE_ENABLE = 0x06"
definition NOR_READ_STATUS_REG1 :: u8 where "NOR_READ_STATUS_REG1 = 0x05"
definition NOR_BUSY :: u8 where "NOR_BUSY = 0x01"
definition NOR_WEL :: u8 where "NOR_WEL = 0x02"
definition NOR_MAX_ADDR :: u32 where "NOR_MAX_ADDR = 0xFFFFFF"

definition readStatusReg1 :: "device \<Rightarrow> nor_error chip \<Rightarrow> u8 \<times> nor_error chip" where
  "readStatusReg1 dev s =
     (let s1 = select s;
          s2 = snd (transfer dev s1 NOR_READ_STATUS_REG1);
          (status, s3) = transfer dev s2 0xFF;
          s4 = deselect s3
      in (status, s4))"

partial_function (option) nor_wait :: "device \<Rightarrow> nor_error chip \<Rightarrow> nor_error chip option" where
  "nor_wait dev s =
     (let (status, s1) = readStatusReg1 dev s
      in if status AND NOR_BUSY \<noteq> 0 then nor_wait dev s1 else Some s1)"

declare nor_wait.simps [code]

definition writeEnable :: "device \<Rightarrow> nor_error chip \<Rightarrow> bool \<times> nor_error chip" where
  "writeEnable dev s =
     (let s1 = select s;
          s2 = snd (transfer dev s1 NOR_WRITE_ENABLE);
          s3 = deselect s2;
          (status, s4) = readStatusReg1 dev s3
      in (status AND NOR_WEL \<noteq> 0, s4))"

definition sendAddress :: "device \<Rightarrow> nor_error chip \<Rightarrow> u32 \<Rightarrow> nor_error chip" where
  "sendAddress dev s address =
     (let s1 = snd (transfer dev s (ucast (drop_bit 16 address AND 0xFF)));
          s2 = snd (transfer dev s1 (ucast (drop_bit 8 address AND 0xFF)));
          s3 = snd (transfer dev s2 (ucast (address AND 0xFF)))
      in s3)"

definition nor_readByte :: "device \<Rightarrow> nor_error chip \<Rightarrow> u32 \<Rightarrow> u8 \<times> nor_error chip" where
  "nor_readByte dev s address =
     (if address > NOR_MAX_ADDR then (0, s\<lparr>errorCode := NOR_ADDRESS_OUT_OF_RANGE\<rparr>)
      else
        (let s1 = select s;
             s2 = snd (transfer dev s1 NOR_READ);
             s3 = sendAddress dev s2 address;
             (byte, s4) = transfer dev s3 0xFF;
             s5 = deselect s4
         in (byte, s5\<lparr>errorCode := NOR_OK\<rparr>)))"

text \<open>
  The loop of \<^verbatim>\<open>isProgramCompatible\<close>, from index \<open>i\<close> on; it returns at the first byte
  that cannot be programmed (or whose read failed).
\<close>

function isProgramCompatible_loop ::
  "device \<Rightarrow> nor_error chip \<Rightarrow> u32 \<Rightarrow> (nat \<Rightarrow> u8) \<Rightarrow> u16 \<Rightarrow> nat \<Rightarrow> bool \<times> nor_error chip" where
  "isProgramCompatible_loop dev s address data len i =
     (if i < unat len then
        (let (oldByte, s1) = nor_readByte dev s (address + of_nat i)
         in if errorCode s1 \<noteq> NOR_OK then (False, s1)
            else if oldByte AND data i \<noteq> data i then (False, s1)
            else isProgramCompatible_loop dev s1 address data len (i + 1))
      else (True, s))"
  by pat_completeness auto
termination
  by (relation "measure (\<lambda>(dev, s, address, data, len, i). unat len - i)") auto

declare isProgramCompatible_loop.simps [simp del]

definition isProgramCompatible ::
  "device \<Rightarrow> nor_error chip \<Rightarrow> u32 \<Rightarrow> (nat \<Rightarrow> u8) \<Rightarrow> u16 \<Rightarrow> bool \<times> nor_error chip" where
  "isProgramCompatible dev s address data len = isProgramCompatible_loop dev s address data len 0"

text \<open>
  In \<^verbatim>\<open>pageProgram\<close> the sums \<^verbatim>\<open>address + length - 1\<close> and \<^verbatim>\<open>page_off + length\<close> are
  computed in \<^verbatim>\<open>uint32_t\<close> (\<^verbatim>\<open>length\<close> is converted to it) and wrap modulo \<open>2\<^sup>3\<^sup>2\<close>.
\<close>

definition pageProgram ::
  "device \<Rightarrow> nor_error chip \<Rightarrow> u32 \<Rightarrow> buffer \<Rightarrow> u16 \<Rightarrow> nor_error chip option" where
  "pageProgram dev s address data len =
     (if len = 0 then Some (s\<lparr>errorCode := NOR_OK\<rparr>)
      else if address + ucast len - 1 > NOR_MAX_ADDR \<or> len > 256
        then Some (s\<lparr>errorCode := NOR_ADDRESS_OUT_OF_RANGE\<rparr>)
      else
        (let page_off = address AND 0xFF
         in if page_off + ucast len > 256 then Some (s\<lparr>errorCode := NOR_OUT_OF_PAGE\<rparr>)
            else case data of
              None \<Rightarrow> Some (s\<lparr>errorCode := NOR_NULL_POINTER\<rparr>)
            | Some d \<Rightarrow>
                (let (ok, s1) = isProgramCompatible dev s address d len
                 in if \<not> ok then Some (s1\<lparr>errorCode := NOR_NEEDS_ERASE\<rparr>)
                    else
                      (let (we, s2) = writeEnable dev s1
                       in if \<not> we then Some (s2\<lparr>errorCode := NOR_WRITE_NOT_ENABLED\<rparr>)
                          else
                            (let s3 = select s2;
                                 s4 = snd (transfer dev s3 NOR_PAGE_PROGRAM);
                                 s5 = sendAddress dev s4 address;
                                 s6 = fold (\<lambda>i t. snd (transfer dev t (d i))) [0..<unat len] s5;
                                 s7 = deselect s6
                             in case nor_wait dev s7 of
                                  None \<Rightarrow> None
                                | Some s8 \<Rightarrow> Some (s8\<lparr>errorCode := NOR_OK\<rparr>))))))"


section \<open>The EEPROM driver: the write protocol of the specification\<close>

text \<open>
  The definitions of this section follow the words of the specification, not the
  code; the theorems compare them with \<open>eeprom_writeArray\<close>.

  \<open>exchange dev log bytes\<close> is the bus log after the bytes have been exchanged with
  the device, one by one, and \<open>spec_frame dev log bytes\<close> the log after one frame: chip
  select asserted, the bytes exchanged, chip select released.
\<close>

fun exchange :: "device \<Rightarrow> bus_event list \<Rightarrow> u8 list \<Rightarrow> bus_event list" where
  "exchange dev log [] = log"
| "exchange dev log (b # bs) = exchange dev (log @ [Transfer b (dev log b)]) bs"

definition spec_frame :: "device \<Rightarrow> bus_event list \<Rightarrow> u8 list \<Rightarrow> bus_event list" where
  "spec_frame dev log bytes = exchange dev (log @ [Select]) bytes @ [Deselect]"

text \<open>
  Read status, \<^verbatim>\<open>{0x05, 0xFF\<rightarrow>status}\<close>: the status byte the device gives when the frame
  is started at \<open>log\<close>, and the log after the frame.
\<close>

definition spec_status :: "device \<Rightarrow> bus_event list \<Rightarrow> u8" where
  "spec_status dev log = dev (exchange dev (log @ [Select]) [0x05]) 0xFF"

definition spec_read_status :: "device \<Rightarrow> bus_event list \<Rightarrow> bus_event list" where
  "spec_read_status dev log = spec_frame dev log [0x05, 0xFF]"

text \<open>
  Poll status until WIP (\<open>0x01\<close>) clears: \<open>spec_poll dev log p\<close> is the log after \<open>p\<close>
  status reads that found WIP set and one that found it clear; it is \<open>None\<close> when the
  device does not answer that way.
\<close>

fun spec_poll :: "device \<Rightarrow> bus_event list \<Rightarrow> nat \<Rightarrow> bus_event list option" where
  "spec_poll dev log 0 =
     (if spec_status dev log AND 0x01 = 0 then Some (spec_read_status dev log) else None)"
| "spec_poll dev log (Suc p) =
     (if spec_status dev log AND 0x01 \<noteq> 0 then spec_poll dev (spec_read_status dev log) p
      else None)"

text \<open>
  The chunks of a write of \<open>n\<close> bytes at address \<open>a\<close>: one chunk for every 16-byte page
  the range \<open>a ..< a + n\<close> meets, namely the part of the range inside that page. A
  chunk is (address, offset into the data, length).
\<close>

definition spec_chunks :: "nat \<Rightarrow> nat \<Rightarrow> (nat \<times> nat \<times> nat) list" where
  "spec_chunks a n =
     (if n = 0 then []
      else map (\<lambda>p. let lo = max a (16 * p); hi = min (a + n) (16 * (p + 1))
                     in (lo, lo - a, hi - lo))
             [a div 16 ..< (a + n - 1) div 16 + 1])"

text \<open>
  The WRITE frame: \<^verbatim>\<open>{0x02 | A8 << 3, addr_lo, data_bytes}\<close>.
\<close>

definition write_frame :: "nat \<Rightarrow> u8 list \<Rightarrow> u8 list" where
  "write_frame a bytes =
     (if a div 256 mod 2 = 1 then 0x0A else 0x02) # of_nat (a mod 256) # bytes"

text \<open>
  Write array: for each chunk WREN (frame \<^verbatim>\<open>{0x06}\<close>), verify WEL (\<open>0x02\<close>) in the status
  read next, send the WRITE frame, poll WIP. The result is the final bus log and the
  latched error: OK after the last chunk, WRITE_NOT_ENABLED as soon as a WEL check
  fails. \<open>polls\<close> gives, for each chunk written, the number of status reads that found
  the chip busy; the result is \<open>None\<close> when the device does not answer that way.
\<close>

fun spec_writeArray ::
  "device \<Rightarrow> (nat \<Rightarrow> u8) \<Rightarrow> bus_event list \<Rightarrow> (nat \<times> nat \<times> nat) list \<Rightarrow> nat list \<Rightarrow>
   (bus_event list \<times> eeprom_error) option" where
  "spec_writeArray dev data log [] polls =
     (if polls = [] then Some (log, EEPROM_OK) else None)"
| "spec_writeArray dev data log ((a, off, n) # cs) polls =
     (let log1 = spec_frame dev log [0x06]
      in if spec_status dev log1 AND 0x02 = 0
         then (if polls = [] then Some (spec_read_status dev log1, EEPROM_WRITE_NOT_ENABLED)
               else None)
         else
           (case polls of
              [] \<Rightarrow> None
            | p # ps \<Rightarrow>
                (case spec_poll dev
                        (spec_frame dev (spec_read_status dev log1)
                           (write_frame a (map data [off ..< off + n]))) p of
                   None \<Rightarrow> None
                 | Some log' \<Rightarrow> spec_writeArray dev data log' cs ps)))"

text \<open>
  Two devices for the scenarios. The status register of \<open>busy_once\<close> always shows WEL
  set, and WIP set at the first poll after the first WRITE frame of a run that starts
  on an empty log (the reply to the 16th bus event). \<open>wel_once\<close> answers the same way
  up to the 24th event and shows neither bit afterwards, so the second WREN of such
  a run is refused.
\<close>

definition busy_once :: device where
  "busy_once = (\<lambda>log byte. if length log = 15 then 0x03 else 0x02)"

definition wel_once :: device where
  "wel_once = (\<lambda>log byte. if length log = 15 then 0x03 else if length log < 24 then 0x02 else 0x00)"

text \<open>The initial driver object of the scenarios: nothing on the bus yet.\<close>

definition eeprom_fresh :: "eeprom_error chip" where
  "eeprom_fresh = \<lparr>bus = [], errorCode = EEPROM_OK\<rparr>"


section \<open>The allocator: lemmas\<close>

lemmas alloc_consts =
  HEAP_SIZE_def PAGE_SIZE_def PAGE_SHIFT_def PAGE_HEADER_SIZE_def BLOCK_SMALL_def BLOCK_BIG_def
  ALIGNED_BLOCK_SMALL_def ALIGNED_BLOCK_BIG_def SMALL_SEGMENTS_def BIG_SEGMENTS_def
  PAGE_COUNT_def UINT16_MAX_def

lemma unat_inc16: "(i::u16) < n \<Longrightarrow> unat (i + 1) = unat i + 1"
  by unat_arith

lemma unat_drop3: "unat (drop_bit 3 (i::u16)) = unat i div 8"
  by (simp add: unat_drop_bit_eq drop_bit_eq_div unat_div)

lemma unat_and7: "unat ((i::u16) AND 7) = unat i mod 8"
proof -
  have "(7::u16) = mask 3" by (simp add: mask_eq_exp_minus_1)
  then have "i AND 7 = take_bit 3 i" by (simp add: take_bit_eq_mask)
  then show ?thesis by (simp add: unsigned_take_bit_eq take_bit_eq_mod unat_mod)
qed

lemma byte_test: "k < 8 \<Longrightarrow> ((b::u8) AND push_bit k 1 = 0) \<longleftrightarrow> \<not> bit b k"
  by (simp add: and_exp_eq_0_iff_not_bit)

lemma bitmap_is_set_iff: "bitmap_is_set hp bitmap index \<longleftrightarrow> seg_bit hp bitmap (unat index)"
  by (simp add: bitmap_is_set_def seg_bit_def unat_drop3 unat_and7 and_exp_eq_0_iff_not_bit)

lemma div_mod_8_eq: "(j div 8 = i div 8 \<and> j mod 8 = i mod (8::nat)) \<longleftrightarrow> j = i"
  by (metis div_mult_mod_eq)

lemma seg_bit_bitmap_set_same:
  "seg_bit (bitmap_set hp bitmap index) bitmap j \<longleftrightarrow> seg_bit hp bitmap j \<or> j = unat index"
  using div_mod_8_eq[of j "unat index"]
  by (auto simp add: bitmap_set_def seg_bit_def unat_drop3 unat_and7 bit_or_iff bit_exp_iff
      possible_bit_word)

lemma seg_bit_bitmap_clear_same:
  "seg_bit (bitmap_clear hp bitmap index) bitmap j \<longleftrightarrow> seg_bit hp bitmap j \<and> j \<noteq> unat index"
  using div_mod_8_eq[of j "unat index"]
  by (auto simp add: bitmap_clear_def seg_bit_def unat_drop3 unat_and7 bit_and_iff bit_not_iff
      bit_exp_iff possible_bit_word)

lemma find_free_block_loop_sound:
  "find_free_block_loop hp bitmap bit_count i \<noteq> UINT16_MAX \<Longrightarrow>
     find_free_block_loop hp bitmap bit_count i < bit_count \<and>
     \<not> seg_bit hp bitmap (unat (find_free_block_loop hp bitmap bit_count i))"
proof (induction hp bitmap bit_count i rule: find_free_block_loop.induct)
  case (1 hp bitmap bit_count i)
  note unfold = find_free_block_loop.simps[of hp bitmap bit_count i]
  show ?case
  proof (cases "i < bit_count")
    case False
    with "1.prems" show ?thesis by (simp add: unfold)
  next
    case lt: True
    show ?thesis
    proof (cases "seg_bit hp bitmap (unat i)")
      case False
      with lt show ?thesis
        by (simp add: unfold seg_bit_def unat_drop3 unat_and7 and_exp_eq_0_iff_not_bit)
    next
      case True
      then have ne: "hp (bitmap + unat (drop_bit 3 i)) AND (push_bit (unat (i AND 7)) 1 :: u8) \<noteq> 0"
        by (simp add: seg_bit_def unat_drop3 unat_and7 and_exp_eq_0_iff_not_bit)
      have eq: "find_free_block_loop hp bitmap bit_count i =
                find_free_block_loop hp bitmap bit_count (i + 1)"
        using lt ne by (simp add: unfold)
      from "1.IH"[OF lt ne] "1.prems" show ?thesis
        unfolding eq by simp
    qed
  qed
qed

lemma find_free_block_loop_least:
  "unat i \<le> m \<Longrightarrow> m < unat bit_count \<Longrightarrow> \<not> seg_bit hp bitmap m \<Longrightarrow>
   (\<forall>j. unat i \<le> j \<and> j < m \<longrightarrow> seg_bit hp bitmap j) \<Longrightarrow>
   find_free_block_loop hp bitmap bit_count i = of_nat m"
proof (induction hp bitmap bit_count i rule: find_free_block_loop.induct)
  case (1 hp bitmap bit_count i)
  from "1.prems" have lt: "i < bit_count"
    by (simp add: word_less_nat_alt)
  show ?case
  proof (cases "unat i = m")
    case True
    then have "of_nat m = i" by auto
    moreover have "hp (bitmap + unat (drop_bit 3 i)) AND (push_bit (unat (i AND 7)) 1 :: u8) = 0"
      using "1.prems"(3) True by (simp add: seg_bit_def unat_drop3 unat_and7 and_exp_eq_0_iff_not_bit)
    ultimately show ?thesis using lt
      by (subst find_free_block_loop.simps) simp
  next
    case False
    with "1.prems" have "seg_bit hp bitmap (unat i)" by auto
    then have ne: "hp (bitmap + unat (drop_bit 3 i)) AND (push_bit (unat (i AND 7)) 1 :: u8) \<noteq> 0"
      by (simp add: seg_bit_def unat_drop3 unat_and7 and_exp_eq_0_iff_not_bit)
    have inc: "unat (i + 1) = unat i + 1" using lt by (rule unat_inc16)
    have "find_free_block_loop hp bitmap bit_count (i + 1) = of_nat m"
      using "1.prems" False by (intro "1.IH"[OF lt ne]) (auto simp add: inc)
    then show ?thesis using lt ne
      by (subst find_free_block_loop.simps) simp
  qed
qed

lemma alloc_scan_unfold:
  "alloc_scan cls segments slot s page =
     (if page < PAGE_COUNT then
        (if scan_hit cls segments s page then
           Some (Ptr (int (page_data_addr page +
                   unat (find_free_block (heap s) (page_header_addr page) (of_nat segments)) * slot)),
                 take_slot s page (find_free_block (heap s) (page_header_addr page) (of_nat segments)))
         else alloc_scan cls segments slot s (page + 1))
      else None)"
  by (subst alloc_scan.simps) (simp add: scan_hit_def take_slot_def Let_def set_used_def)

lemma alloc_fresh_unfold:
  "alloc_fresh page_set s page =
     (if page < PAGE_COUNT then
        (if type (page_table s page) = PAGE_FREE
         then Some (Ptr (int (page_data_addr page)), open_page page_set s page)
         else alloc_fresh page_set s (page + 1))
      else None)"
  by (subst alloc_fresh.simps) (simp add: open_page_def Let_def)

lemma alloc_scan_None:
  "(\<forall>p. page \<le> p \<and> p < PAGE_COUNT \<longrightarrow> \<not> scan_hit cls segments s p) \<Longrightarrow>
   alloc_scan cls segments slot s page = None"
proof (induction "PAGE_COUNT - page" arbitrary: page)
  case 0
  then show ?case by (subst alloc_scan_unfold) simp
next
  case (Suc d)
  then have "alloc_scan cls segments slot s (page + 1) = None" by (intro Suc.hyps) auto
  with Suc.prems show ?case by (subst alloc_scan_unfold) simp
qed

lemma alloc_scan_first:
  "page \<le> q \<Longrightarrow> q < PAGE_COUNT \<Longrightarrow> scan_hit cls segments s q \<Longrightarrow>
   (\<forall>p. page \<le> p \<and> p < q \<longrightarrow> \<not> scan_hit cls segments s p) \<Longrightarrow>
   alloc_scan cls segments slot s page =
     Some (Ptr (int (page_data_addr q +
             unat (find_free_block (heap s) (page_header_addr q) (of_nat segments)) * slot)),
           take_slot s q (find_free_block (heap s) (page_header_addr q) (of_nat segments)))"
proof (induction "q - page" arbitrary: page)
  case 0
  then have "page = q" by simp
  with 0 show ?case by (subst alloc_scan_unfold) simp
next
  case (Suc d)
  then have lt: "page < q" by simp
  with Suc.prems have nh: "\<not> scan_hit cls segments s page" by simp
  have "alloc_scan cls segments slot s (page + 1) =
     Some (Ptr (int (page_data_addr q +
             unat (find_free_block (heap s) (page_header_addr q) (of_nat segments)) * slot)),
           take_slot s q (find_free_block (heap s) (page_header_addr q) (of_nat segments)))"
    using Suc.prems Suc.hyps(2) lt by (intro Suc.hyps(1)) auto
  with nh lt Suc.prems show ?case by (subst alloc_scan_unfold) simp
qed

lemma alloc_scan_Some:
  "alloc_scan cls segments slot s page = Some (ptr, s') \<Longrightarrow>
   \<exists>q. page \<le> q \<and> q < PAGE_COUNT \<and> scan_hit cls segments s q \<and>
       ptr = Ptr (int (page_data_addr q +
               unat (find_free_block (heap s) (page_header_addr q) (of_nat segments)) * slot)) \<and>
       s' = take_slot s q (find_free_block (heap s) (page_header_addr q) (of_nat segments))"
proof (induction "PAGE_COUNT - page" arbitrary: page)
  case 0
  then show ?case by (subst (asm) alloc_scan_unfold) simp
next
  case (Suc d)
  then have lt: "page < PAGE_COUNT" by simp
  show ?case
  proof (cases "scan_hit cls segments s page")
    case True
    with Suc.prems lt show ?thesis
      by (subst (asm) alloc_scan_unfold) auto
  next
    case False
    with Suc.prems lt have rec: "alloc_scan cls segments slot s (page + 1) = Some (ptr, s')"
      by (subst (asm) alloc_scan_unfold) simp
    have d: "d = PAGE_COUNT - (page + 1)" using Suc.hyps(2) by simp
    from Suc.hyps(1)[OF d rec] obtain q where "page + 1 \<le> q" "q < PAGE_COUNT" "scan_hit cls segments s q"
       "ptr = Ptr (int (page_data_addr q +
               unat (find_free_block (heap s) (page_header_addr q) (of_nat segments)) * slot))"
       "s' = take_slot s q (find_free_block (heap s) (page_header_addr q) (of_nat segments))"
      by blast
    then show ?thesis by (intro exI[of _ q]) simp
  qed
qed

lemma alloc_fresh_None:
  "(\<forall>p. page \<le> p \<and> p < PAGE_COUNT \<longrightarrow> type (page_table s p) \<noteq> PAGE_FREE) \<Longrightarrow>
   alloc_fresh page_set s page = None"
proof (induction "PAGE_COUNT - page" arbitrary: page)
  case 0
  then show ?case by (subst alloc_fresh_unfold) simp
next
  case (Suc d)
  then have "alloc_fresh page_set s (page + 1) = None" by (intro Suc.hyps) auto
  with Suc.prems show ?case by (subst alloc_fresh_unfold) simp
qed

lemma alloc_fresh_first:
  "page \<le> q \<Longrightarrow> q < PAGE_COUNT \<Longrightarrow> type (page_table s q) = PAGE_FREE \<Longrightarrow>
   (\<forall>p. page \<le> p \<and> p < q \<longrightarrow> type (page_table s p) \<noteq> PAGE_FREE) \<Longrightarrow>
   alloc_fresh page_set s page = Some (Ptr (int (page_data_addr q)), open_page page_set s q)"
proof (induction "q - page" arbitrary: page)
  case 0
  then have "page = q" by simp
  with 0 show ?case by (subst alloc_fresh_unfold) simp
next
  case (Suc d)
  then have lt: "page < q" by simp
  with Suc.prems have nh: "type (page_table s page) \<noteq> PAGE_FREE" by simp
  have "alloc_fresh page_set s (page + 1) =
      Some (Ptr (int (page_data_addr q)), open_page page_set s q)"
    using Suc.prems Suc.hyps(2) lt by (intro Suc.hyps(1)) auto
  with nh lt Suc.prems show ?case by (subst alloc_fresh_unfold) simp
qed

lemma alloc_fresh_Some:
  "alloc_fresh page_set s page = Some (ptr, s') \<Longrightarrow>
   \<exists>q. page \<le> q \<and> q < PAGE_COUNT \<and> type (page_table s q) = PAGE_FREE \<and>
       ptr = Ptr (int (page_data_addr q)) \<and> s' = open_page page_set s q"
proof (induction "PAGE_COUNT - page" arbitrary: page)
  case 0
  then show ?case by (subst (asm) alloc_fresh_unfold) simp
next
  case (Suc d)
  then have lt: "page < PAGE_COUNT" by simp
  show ?case
  proof (cases "type (page_table s page) = PAGE_FREE")
    case True
    with Suc.prems lt show ?thesis
      by (subst (asm) alloc_fresh_unfold) auto
  next
    case False
    with Suc.prems lt have rec: "alloc_fresh page_set s (page + 1) = Some (ptr, s')"
      by (subst (asm) alloc_fresh_unfold) simp
    have d: "d = PAGE_COUNT - (page + 1)" using Suc.hyps(2) by simp
    from Suc.hyps(1)[OF d rec] obtain q where "page + 1 \<le> q" "q < PAGE_COUNT" "type (page_table s q) = PAGE_FREE"
       "ptr = Ptr (int (page_data_addr q))" "s' = open_page page_set s q"
      by blast
    then show ?thesis by (intro exI[of _ q]) simp
  qed
qed

lemma hdr_addr: "page_header_addr p = p * 1024"
  by (simp add: page_header_addr_def page_base_addr_def PAGE_SHIFT_def push_bit_eq_mult)

lemma data_addr: "page_data_addr p = p * 1024 + 16"
  by (simp add: page_data_addr_def page_base_addr_def PAGE_SHIFT_def PAGE_HEADER_SIZE_def
      push_bit_eq_mult)

lemma set_used_simps [simp]:
  "heap (set_used s p n) = heap s"
  "page_table (set_used s p n) q =
     (if q = p then (page_table s p)\<lparr>used_segments := n\<rparr> else page_table s q)"
  by (simp_all add: set_used_def)

lemma set_type_simps [simp]:
  "heap (set_type s p t) = heap s"
  "page_table (set_type s p t) q =
     (if q = p then (page_table s p)\<lparr>type := t\<rparr> else page_table s q)"
  by (simp_all add: set_type_def)

lemma take_slot_simps [simp]:
  "heap (take_slot s q fb) = bitmap_set (heap s) (page_header_addr q) fb"
  "page_table (take_slot s q fb) p =
     (if p = q then (page_table s q)\<lparr>used_segments := used_segments (page_table s q) + 1\<rparr>
      else page_table s p)"
  by (simp_all add: take_slot_def)

lemma page_set_free_simps [simp]:
  "heap (page_set_free s q) = memset (heap s) (page_header_addr q) 0 PAGE_HEADER_SIZE"
  "page_table (page_set_free s q) p =
     (if p = q then \<lparr>used_segments = 0, type = PAGE_FREE\<rparr> else page_table s p)"
  by (simp_all add: page_set_free_def Let_def)

lemma open_page_small_simps [simp]:
  "heap (open_page page_set_small s q) = bitmap_set (heap s) (page_header_addr q) 0"
  "page_table (open_page page_set_small s q) p =
     (if p = q then \<lparr>used_segments = 1, type = PAGE_SMALL\<rparr> else page_table s p)"
  by (simp_all add: open_page_def page_set_small_def)

lemma open_page_big_simps [simp]:
  "heap (open_page page_set_big s q) = bitmap_set (heap s) (page_header_addr q) 0"
  "page_table (open_page page_set_big s q) p =
     (if p = q then \<lparr>used_segments = 1, type = PAGE_BIG\<rparr> else page_table s p)"
  by (simp_all add: open_page_def page_set_big_def)

lemma bitmap_set_other: "a \<noteq> bitmap + unat index div 8 \<Longrightarrow> bitmap_set hp bitmap index a = hp a"
  by (simp add: bitmap_set_def unat_drop3)

lemma bitmap_clear_other: "a \<noteq> bitmap + unat index div 8 \<Longrightarrow> bitmap_clear hp bitmap index a = hp a"
  by (simp add: bitmap_clear_def unat_drop3)

lemma popcount_card: "popcount hp bitmap n = card {i. i < n \<and> seg_bit hp bitmap i}"
proof -
  have "{x. seg_bit hp bitmap x} \<inter> set [0..<n] = {i. i < n \<and> seg_bit hp bitmap i}" by auto
  then show ?thesis by (simp add: popcount_def distinct_length_filter)
qed

lemma popcount_cong:
  "(\<And>i. i < n \<Longrightarrow> seg_bit hp' b' i = seg_bit hp b i) \<Longrightarrow> popcount hp' b' n = popcount hp b n"
  unfolding popcount_card by (rule arg_cong[where f = card]) auto

lemma popcount_set:
  assumes "unat index < n" "\<not> seg_bit hp bitmap (unat index)"
  shows "popcount (bitmap_set hp bitmap index) bitmap n = popcount hp bitmap n + 1"
proof -
  have "{i. i < n \<and> seg_bit (bitmap_set hp bitmap index) bitmap i} =
        insert (unat index) {i. i < n \<and> seg_bit hp bitmap i}"
    using assms by (auto simp add: seg_bit_bitmap_set_same)
  moreover have "unat index \<notin> {i. i < n \<and> seg_bit hp bitmap i}" using assms by simp
  moreover have "finite {i. i < n \<and> seg_bit hp bitmap i}" by simp
  ultimately show ?thesis unfolding popcount_card by simp
qed

lemma popcount_clear:
  assumes "unat index < n" "seg_bit hp bitmap (unat index)"
  shows "popcount (bitmap_clear hp bitmap index) bitmap n + 1 = popcount hp bitmap n"
proof -
  have "{i. i < n \<and> seg_bit (bitmap_clear hp bitmap index) bitmap i} =
        {i. i < n \<and> seg_bit hp bitmap i} - {unat index}"
    by (auto simp add: seg_bit_bitmap_clear_same)
  moreover have "unat index \<in> {i. i < n \<and> seg_bit hp bitmap i}" using assms by simp
  moreover have "finite {i. i < n \<and> seg_bit hp bitmap i}" by simp
  ultimately show ?thesis unfolding popcount_card
    using card.remove[of "{i. i < n \<and> seg_bit hp bitmap i}" "unat index"] by simp
qed

lemma popcount_zero: "(\<And>i. i < n \<Longrightarrow> \<not> seg_bit hp b i) \<Longrightarrow> popcount hp b n = 0"
  unfolding popcount_card by simp

lemma header_zero_seg_bit: "header_zero hp p \<Longrightarrow> i < 128 \<Longrightarrow> \<not> seg_bit hp (page_header_addr p) i"
proof -
  assume hz: "header_zero hp p" and i: "i < 128"
  then have "i div 8 < PAGE_HEADER_SIZE" by (simp add: PAGE_HEADER_SIZE_def)
  with hz have "hp (page_header_addr p + i div 8) = 0" by (simp add: header_zero_def)
  then show ?thesis by (simp add: seg_bit_def)
qed

lemma page_ok_cong:
  assumes "page_table s' p = page_table s p"
    and "\<And>j. j < PAGE_HEADER_SIZE \<Longrightarrow> heap s' (page_header_addr p + j) = heap s (page_header_addr p + j)"
  shows "page_ok s' p = page_ok s p"
proof -
  have sb: "seg_bit (heap s') (page_header_addr p) i = seg_bit (heap s) (page_header_addr p) i"
    if "i < 128" for i
  proof -
    from that have "i div 8 < PAGE_HEADER_SIZE" by (simp add: PAGE_HEADER_SIZE_def)
    then show ?thesis by (simp add: seg_bit_def assms(2))
  qed
  have pc: "popcount (heap s') (page_header_addr p) n = popcount (heap s) (page_header_addr p) n"
    if "n \<le> 128" for n
    using that by (intro popcount_cong sb) simp
  have hz: "header_zero (heap s') p = header_zero (heap s) p"
    by (simp add: header_zero_def assms(2))
  have "SMALL_SEGMENTS \<le> 128" "BIG_SEGMENTS \<le> 128"
    by (simp_all add: alloc_consts)
  then show ?thesis
    by (simp add: page_ok_def assms(1) hz pc split: page_type_t.split)
qed

lemma segments_cases:
  "SMALL_SEGMENTS = 63" "BIG_SEGMENTS = 5" "PAGE_COUNT = 64" "PAGE_HEADER_SIZE = 16"
  by (simp_all add: alloc_consts)

lemma find_free_block_sound:
  assumes "find_free_block hp bitmap (of_nat n) \<noteq> UINT16_MAX" "n < 65536"
  shows "unat (find_free_block hp bitmap (of_nat n)) < n \<and>
         \<not> seg_bit hp bitmap (unat (find_free_block hp bitmap (of_nat n)))"
proof -
  let ?fb = "find_free_block hp bitmap (of_nat n)"
  from find_free_block_loop_sound[of hp bitmap "of_nat n" 0] assms(1)
  have "?fb < of_nat n" and nb: "\<not> seg_bit hp bitmap (unat ?fb)"
    by (simp_all add: find_free_block_def)
  then have "unat ?fb < unat (of_nat n :: u16)" by (simp add: word_less_nat_alt)
  moreover have "unat (of_nat n :: u16) = n" using assms(2) by (simp add: unat_of_nat)
  ultimately show ?thesis using nb by simp
qed

lemma header_disjoint:
  "p \<noteq> q \<Longrightarrow> j < 16 \<Longrightarrow> k < 16 \<Longrightarrow> page_header_addr p + j \<noteq> page_header_addr q + (k::nat)"
  unfolding hdr_addr by arith

lemma unat_inc_small: "unat (u::u16) < n \<Longrightarrow> n \<le> 65535 \<Longrightarrow> unat (u + 1) = unat u + 1"
  by (simp add: unat_word_ariths)

lemma unat_dec: "(u::u16) \<noteq> 0 \<Longrightarrow> unat (u - 1) + 1 = unat u"
  by (metis Suc_eq_plus1 add.commute unat_minus_one unat_eq_zero Suc_pred' unsigned_eq_0_iff not_gr_zero)

lemma take_slot_inv:
  assumes inv: "alloc_inv s" and q: "q < PAGE_COUNT"
    and hit: "scan_hit cls segments s q"
    and cls: "(cls = PAGE_SMALL \<and> segments = SMALL_SEGMENTS) \<or> (cls = PAGE_BIG \<and> segments = BIG_SEGMENTS)"
  shows "alloc_inv (take_slot s q (find_free_block (heap s) (page_header_addr q) (of_nat segments)))"
proof -
  let ?fb = "find_free_block (heap s) (page_header_addr q) (of_nat segments)"
  let ?s' = "take_slot s q ?fb"
  from cls have seg: "segments \<le> 63" by (auto simp add: segments_cases)
  from hit have ne: "?fb \<noteq> UINT16_MAX" and ty: "type (page_table s q) = cls"
    and used: "unat (used_segments (page_table s q)) < segments"
    by (simp_all add: scan_hit_def)
  from find_free_block_sound[OF ne] seg
  have fb: "unat ?fb < segments" and clear: "\<not> seg_bit (heap s) (page_header_addr q) (unat ?fb)"
    by simp_all
  have "page_ok ?s' p" if p: "p < PAGE_COUNT" for p
  proof (cases "p = q")
    case True
    have pc: "popcount (heap ?s') (page_header_addr q) segments =
              popcount (heap s) (page_header_addr q) segments + 1"
      using fb clear by (simp add: popcount_set)
    have u: "unat (used_segments (page_table s q) + 1) = unat (used_segments (page_table s q)) + 1"
      using used seg by (intro unat_inc_small[where n = segments]) simp_all
    from inv q have "page_ok s q" by (simp add: alloc_inv_def)
    with cls ty True pc u show ?thesis
      by (auto simp add: page_ok_def)
  next
    case False
    from fb seg have "unat ?fb div 8 < 16" by simp
    then have "heap ?s' (page_header_addr p + j) = heap s (page_header_addr p + j)"
      if "j < PAGE_HEADER_SIZE" for j
      using that False header_disjoint[of p q j "unat ?fb div 8"]
      by (simp add: bitmap_set_other segments_cases)
    moreover have "page_table ?s' p = page_table s p" using False by simp
    ultimately have "page_ok ?s' p = page_ok s p" by (intro page_ok_cong) simp_all
    with inv p show ?thesis by (simp add: alloc_inv_def)
  qed
  then show ?thesis by (simp add: alloc_inv_def)
qed

lemma open_page_ok:
  assumes inv: "alloc_inv s" and q: "q < PAGE_COUNT" and free: "type (page_table s q) = PAGE_FREE"
    and pt: "\<And>p. page_table s' p = (if p = q then \<lparr>used_segments = 1, type = cls\<rparr> else page_table s p)"
    and hp: "heap s' = bitmap_set (heap s) (page_header_addr q) 0"
    and cls: "cls \<noteq> PAGE_FREE"
  shows "alloc_inv s'"
proof -
  have "page_ok s' p" if p: "p < PAGE_COUNT" for p
  proof (cases "p = q")
    case True
    from inv q have "page_ok s q" by (simp add: alloc_inv_def)
    with free have hz: "header_zero (heap s) q" by (simp add: page_ok_def)
    have pc: "popcount (heap s) (page_header_addr q) n = 0" if "n \<le> 128" for n
      using that by (intro popcount_zero header_zero_seg_bit[OF hz]) simp
    have "popcount (heap s') (page_header_addr q) n = popcount (heap s) (page_header_addr q) n + 1"
      if "0 < n" "n \<le> 128" for n
      unfolding hp using that header_zero_seg_bit[OF hz, of 0]
      by (intro popcount_set) simp_all
    with pc have "popcount (heap s') (page_header_addr q) n = 1" if "0 < n" "n \<le> 128" for n
      using that by simp
    with True cls show ?thesis
      by (cases cls) (simp_all add: page_ok_def pt segments_cases)
  next
    case False
    have "heap s' (page_header_addr p + j) = heap s (page_header_addr p + j)"
      if "j < PAGE_HEADER_SIZE" for j
      using that False header_disjoint[of p q j 0]
      by (simp add: hp bitmap_set_other segments_cases)
    moreover have "page_table s' p = page_table s p" using False by (simp add: pt)
    ultimately have "page_ok s' p = page_ok s p" by (intro page_ok_cong) simp_all
    with inv p show ?thesis by (simp add: alloc_inv_def)
  qed
  then show ?thesis by (simp add: alloc_inv_def)
qed

lemma alloc_class_inv:
  assumes inv: "alloc_inv s"
    and cls: "(cls = PAGE_SMALL \<and> segments = SMALL_SEGMENTS \<and> page_set = page_set_small) \<or>
              (cls = PAGE_BIG \<and> segments = BIG_SEGMENTS \<and> page_set = page_set_big)"
    and res: "res = (case alloc_scan cls segments slot s 0 of
                Some r \<Rightarrow> r
              | None \<Rightarrow> (case alloc_fresh page_set s 0 of Some r \<Rightarrow> r | None \<Rightarrow> (NULL, s)))"
  shows "alloc_inv (snd res)"
proof (cases "alloc_scan cls segments slot s 0")
  case (Some r)
  obtain ptr s' where r: "r = (ptr, s')" by (cases r)
  from alloc_scan_Some[OF Some[unfolded r]] obtain q where
    q: "q < PAGE_COUNT" "scan_hit cls segments s q"
       "s' = take_slot s q (find_free_block (heap s) (page_header_addr q) (of_nat segments))"
    by blast
  have "alloc_inv s'" unfolding q(3)
    using inv q(1) q(2) cls by (intro take_slot_inv) auto
  then show ?thesis by (simp add: res Some r)
next
  case None
  show ?thesis
  proof (cases "alloc_fresh page_set s 0")
    case None' : None
    with None inv show ?thesis by (simp add: res)
  next
    case (Some r)
    obtain ptr s' where r: "r = (ptr, s')" by (cases r)
    from alloc_fresh_Some[OF Some[unfolded r]] obtain q where
      q: "q < PAGE_COUNT" "type (page_table s q) = PAGE_FREE" "s' = open_page page_set s q"
      by blast
    from cls have "alloc_inv s'"
    proof
      assume c: "cls = PAGE_SMALL \<and> segments = SMALL_SEGMENTS \<and> page_set = page_set_small"
      show ?thesis
        by (rule open_page_ok[OF inv q(1) q(2), where cls = PAGE_SMALL]) (simp_all add: q(3) c)
    next
      assume c: "cls = PAGE_BIG \<and> segments = BIG_SEGMENTS \<and> page_set = page_set_big"
      show ?thesis
        by (rule open_page_ok[OF inv q(1) q(2), where cls = PAGE_BIG]) (simp_all add: q(3) c)
    qed
    then show ?thesis by (simp add: res None Some r)
  qed
qed

lemma alloc_small_inv: "alloc_inv s \<Longrightarrow> alloc_inv (snd (alloc_small s))"
  by (rule alloc_class_inv[where cls = PAGE_SMALL and slot = ALIGNED_BLOCK_SMALL])
     (simp_all add: alloc_small_def)

lemma alloc_big_inv: "alloc_inv s \<Longrightarrow> alloc_inv (snd (alloc_big s))"
  by (rule alloc_class_inv[where cls = PAGE_BIG and slot = ALIGNED_BLOCK_BIG])
     (simp_all add: alloc_big_def)

lemma custom_malloc_inv: "alloc_inv s \<Longrightarrow> alloc_inv (snd (custom_malloc s sz))"
  by (simp add: custom_malloc_def alloc_small_inv alloc_big_inv)

lemma release_slot_simps:
  "heap (release_slot s p idx) =
     (if used_segments (page_table s p) - 1 = 0
      then memset (bitmap_clear (heap s) (page_header_addr p) idx) (page_header_addr p) 0 PAGE_HEADER_SIZE
      else bitmap_clear (heap s) (page_header_addr p) idx)"
  "page_table (release_slot s p idx) q =
     (if q = p then
        (if used_segments (page_table s p) - 1 = 0 then \<lparr>used_segments = 0, type = PAGE_FREE\<rparr>
         else (page_table s p)\<lparr>used_segments := used_segments (page_table s p) - 1\<rparr>)
      else page_table s q)"
  by (simp_all add: release_slot_def Let_def)

lemma free_in_page_unfold:
  "free_in_page s a p segments slot =
     (if (word_of_int (a - int (page_data_addr p)) :: size_t) mod of_nat slot \<noteq> 0 then s
      else if (word_of_int (a - int (page_data_addr p)) :: size_t) div of_nat slot \<ge> of_nat segments
        then s
      else if \<not> bitmap_is_set (heap s) (page_header_addr p)
                 (ucast ((word_of_int (a - int (page_data_addr p)) :: size_t) div of_nat slot))
        then s
      else release_slot s p
             (ucast ((word_of_int (a - int (page_data_addr p)) :: size_t) div of_nat slot)))"
  unfolding free_in_page_def release_slot_def Let_def by simp

lemma free_in_page_cases:
  assumes "segments < 65536"
  shows "free_in_page s a p segments slot = s \<or>
         (\<exists>idx::u16. unat idx < segments \<and> seg_bit (heap s) (page_header_addr p) (unat idx) \<and>
            free_in_page s a p segments slot = release_slot s p idx)"
proof -
  define off :: size_t where "off = word_of_int (a - int (page_data_addr p))"
  define bi where "bi = off div of_nat slot"
  note unfold = free_in_page_unfold[of s a p segments slot, folded off_def, folded bi_def]
  show ?thesis
  proof (cases "off mod of_nat slot \<noteq> 0 \<or> bi \<ge> of_nat segments \<or>
                \<not> bitmap_is_set (heap s) (page_header_addr p) (ucast bi)")
    case True
    then have "free_in_page s a p segments slot = s"
      unfolding unfold by auto
    then show ?thesis ..
  next
    case False
    then have lt: "bi < of_nat segments"
      and set: "bitmap_is_set (heap s) (page_header_addr p) (ucast bi)"
      and m: "off mod of_nat slot = 0"
      by auto
    have "unat (of_nat segments :: size_t) = segments"
      using assms by (simp add: unat_of_nat)
    with lt have b: "unat bi < segments" by (simp add: word_less_nat_alt)
    with assms have u: "unat (ucast bi :: u16) = unat bi"
      by (simp add: unsigned_ucast_eq take_bit_nat_eq_self)
    have r: "free_in_page s a p segments slot = release_slot s p (ucast bi)"
      unfolding unfold using lt set m by simp
    have sb: "seg_bit (heap s) (page_header_addr p) (unat (ucast bi :: u16))"
      using set by (simp add: bitmap_is_set_iff)
    have "unat (ucast bi :: u16) < segments" using b u by simp
    with sb r have "\<exists>idx::u16. unat idx < segments \<and>
        seg_bit (heap s) (page_header_addr p) (unat idx) \<and>
        free_in_page s a p segments slot = release_slot s p idx"
      by (intro exI[of _ "ucast bi"] conjI)
    then show ?thesis ..
  qed
qed

lemma release_slot_inv:
  assumes inv: "alloc_inv s" and p: "p < PAGE_COUNT"
    and used: "used_segments (page_table s p) \<noteq> 0"
    and cls: "(type (page_table s p) = PAGE_SMALL \<and> segments = SMALL_SEGMENTS) \<or>
              (type (page_table s p) = PAGE_BIG \<and> segments = BIG_SEGMENTS)"
    and idx: "unat idx < segments" and bit: "seg_bit (heap s) (page_header_addr p) (unat idx)"
  shows "alloc_inv (release_slot s p idx)"
proof -
  let ?s' = "release_slot s p idx"
  from cls have seg: "segments \<le> 63" by (auto simp add: segments_cases)
  have "page_ok ?s' q" if q: "q < PAGE_COUNT" for q
  proof (cases "q = p")
    case True
    show ?thesis
    proof (cases "used_segments (page_table s p) - 1 = 0")
      case True
      then show ?thesis using \<open>q = p\<close>
        by (simp add: page_ok_def release_slot_simps header_zero_def memset_def)
    next
      case False
      have pc: "popcount (heap ?s') (page_header_addr p) segments + 1 =
                popcount (heap s) (page_header_addr p) segments"
        using False popcount_clear[OF idx bit] by (simp add: release_slot_simps)
      from inv p have "page_ok s p" by (simp add: alloc_inv_def)
      with cls pc unat_dec[OF used] False \<open>q = p\<close> show ?thesis
        by (auto simp add: page_ok_def release_slot_simps)
    qed
  next
    case False
    from idx seg have "unat idx div 8 < 16" by simp
    then have "heap ?s' (page_header_addr q + j) = heap s (page_header_addr q + j)"
      if "j < PAGE_HEADER_SIZE" for j
      using that False header_disjoint[of q p j "unat idx div 8"] header_disjoint[of q p j]
      by (auto simp add: release_slot_simps bitmap_clear_other segments_cases memset_def hdr_addr)
    moreover have "page_table ?s' q = page_table s q" using False by (simp add: release_slot_simps)
    ultimately have "page_ok ?s' q = page_ok s q" by (intro page_ok_cong) simp_all
    with inv q show ?thesis by (simp add: alloc_inv_def)
  qed
  then show ?thesis by (simp add: alloc_inv_def)
qed

lemma page_index_bound: "0 \<le> a \<Longrightarrow> a < int HEAP_SIZE \<Longrightarrow> drop_bit PAGE_SHIFT (nat a) < PAGE_COUNT"
  by (simp add: alloc_consts drop_bit_eq_div)

lemma custom_free_inv: "alloc_inv s \<Longrightarrow> alloc_inv (custom_free s ptr)"
proof (cases ptr)
  case NULL
  assume "alloc_inv s" then show ?thesis using NULL by (simp add: custom_free_def)
next
  case (Ptr a)
  assume inv: "alloc_inv s"
  show ?thesis
  proof (cases "a < 0 \<or> a \<ge> int HEAP_SIZE")
    case True
    with inv Ptr show ?thesis by (simp add: custom_free_def)
  next
    case False
    define p where "p = drop_bit PAGE_SHIFT (nat a)"
    from False have p: "p < PAGE_COUNT" unfolding p_def by (intro page_index_bound) simp_all
    show ?thesis
    proof (cases "used_segments (page_table s p) = 0")
      case True
      with inv Ptr False show ?thesis by (simp add: custom_free_def Let_def flip: p_def)
    next
      case used: False
      show ?thesis
      proof (cases "type (page_table s p)")
        case PAGE_FREE
        with inv Ptr False used show ?thesis by (simp add: custom_free_def Let_def flip: p_def)
      next
        case PAGE_SMALL
        then have eq: "custom_free s ptr = free_in_page s a p SMALL_SEGMENTS ALIGNED_BLOCK_SMALL"
          using Ptr False used by (simp add: custom_free_def Let_def flip: p_def)
        have "SMALL_SEGMENTS < 65536" by (simp add: segments_cases)
        from free_in_page_cases[OF this, of s a p ALIGNED_BLOCK_SMALL]
        show ?thesis unfolding eq
        proof (elim disjE exE conjE)
          assume "free_in_page s a p SMALL_SEGMENTS ALIGNED_BLOCK_SMALL = s"
          with inv show "alloc_inv (free_in_page s a p SMALL_SEGMENTS ALIGNED_BLOCK_SMALL)" by simp
        next
          fix idx :: u16
          assume "unat idx < SMALL_SEGMENTS" "seg_bit (heap s) (page_header_addr p) (unat idx)"
            and e: "free_in_page s a p SMALL_SEGMENTS ALIGNED_BLOCK_SMALL = release_slot s p idx"
          then show "alloc_inv (free_in_page s a p SMALL_SEGMENTS ALIGNED_BLOCK_SMALL)"
            unfolding e using inv p used PAGE_SMALL
            by (intro release_slot_inv[where segments = SMALL_SEGMENTS]) simp_all
        qed
      next
        case PAGE_BIG
        then have eq: "custom_free s ptr = free_in_page s a p BIG_SEGMENTS ALIGNED_BLOCK_BIG"
          using Ptr False used by (simp add: custom_free_def Let_def flip: p_def)
        have "BIG_SEGMENTS < 65536" by (simp add: segments_cases)
        from free_in_page_cases[OF this, of s a p ALIGNED_BLOCK_BIG]
        show ?thesis unfolding eq
        proof (elim disjE exE conjE)
          assume "free_in_page s a p BIG_SEGMENTS ALIGNED_BLOCK_BIG = s"
          with inv show "alloc_inv (free_in_page s a p BIG_SEGMENTS ALIGNED_BLOCK_BIG)" by simp
        next
          fix idx :: u16
          assume "unat idx < BIG_SEGMENTS" "seg_bit (heap s) (page_header_addr p) (unat idx)"
            and e: "free_in_page s a p BIG_SEGMENTS ALIGNED_BLOCK_BIG = release_slot s p idx"
          then show "alloc_inv (free_in_page s a p BIG_SEGMENTS ALIGNED_BLOCK_BIG)"
            unfolding e using inv p used PAGE_BIG
            by (intro release_slot_inv[where segments = BIG_SEGMENTS]) simp_all
        qed
      qed
    qed
  qed
qed

lemma alloc_init_loop_page_table:
  "page_table (alloc_init_loop s i) p =
     (if i \<le> p \<and> p < PAGE_COUNT then \<lparr>used_segments = 0, type = PAGE_FREE\<rparr> else page_table s p)"
proof (induction s i rule: alloc_init_loop.induct)
  case (1 s i)
  show ?case
  proof (cases "i < PAGE_COUNT")
    case True
    then have "alloc_init_loop s i = alloc_init_loop (page_set_free s i) (i + 1)"
      by (subst alloc_init_loop.simps) simp
    with "1.IH"[OF True] True show ?thesis by auto
  next
    case False
    then show ?thesis by (subst alloc_init_loop.simps) auto
  qed
qed

lemma alloc_init_loop_heap:
  "heap (alloc_init_loop s i) a =
     (if \<exists>p. i \<le> p \<and> p < PAGE_COUNT \<and> page_header_addr p \<le> a \<and> a < page_header_addr p + PAGE_HEADER_SIZE
      then 0 else heap s a)"
proof (induction s i rule: alloc_init_loop.induct)
  case (1 s i)
  show ?case
  proof (cases "i < PAGE_COUNT")
    case True
    then have eq: "alloc_init_loop s i = alloc_init_loop (page_set_free s i) (i + 1)"
      by (subst alloc_init_loop.simps) simp
    have "(\<exists>p. i \<le> p \<and> p < PAGE_COUNT \<and> page_header_addr p \<le> a \<and> a < page_header_addr p + PAGE_HEADER_SIZE)
      \<longleftrightarrow> (\<exists>p. i + 1 \<le> p \<and> p < PAGE_COUNT \<and> page_header_addr p \<le> a \<and> a < page_header_addr p + PAGE_HEADER_SIZE)
          \<or> (page_header_addr i \<le> a \<and> a < page_header_addr i + PAGE_HEADER_SIZE)"
    proof -
      have "i \<le> q \<longleftrightarrow> i + 1 \<le> q \<or> q = i" for q by auto
      with True show ?thesis by auto
    qed
    then show ?thesis unfolding eq "1.IH"[OF True]
      by (auto simp add: memset_def)
  next
    case False
    then show ?thesis by (subst alloc_init_loop.simps) auto
  qed
qed

lemma alloc_init_inv: "alloc_inv (alloc_init s)"
proof -
  have "page_ok (alloc_init s) p" if "p < PAGE_COUNT" for p
  proof -
    have "heap (alloc_init s) (page_header_addr p + j) = 0" if "j < PAGE_HEADER_SIZE" for j
    proof -
      have "\<exists>q. 0 \<le> q \<and> q < PAGE_COUNT \<and> page_header_addr q \<le> page_header_addr p + j \<and>
                page_header_addr p + j < page_header_addr q + PAGE_HEADER_SIZE"
        using that \<open>p < PAGE_COUNT\<close> by (intro exI[of _ p]) simp
      then show ?thesis unfolding alloc_init_def alloc_init_loop_heap by simp
    qed
    then show ?thesis using that
      by (simp add: page_ok_def alloc_init_def alloc_init_loop_page_table header_zero_def)
  qed
  then show ?thesis by (simp add: alloc_inv_def)
qed

lemma reachable_inv: "reachable s \<Longrightarrow> alloc_inv s"
  by (induction rule: reachable.induct) (simp_all add: alloc_init_inv custom_malloc_inv custom_free_inv)

lemma alloc_init_page_table:
  "p < PAGE_COUNT \<Longrightarrow> page_table (alloc_init s) p = \<lparr>used_segments = 0, type = PAGE_FREE\<rparr>"
  by (simp add: alloc_init_def alloc_init_loop_page_table)

lemma alloc_init_header:
  assumes "p < PAGE_COUNT" "j < PAGE_HEADER_SIZE"
  shows "heap (alloc_init s) (page_header_addr p + j) = 0"
proof -
  have "\<exists>q. 0 \<le> q \<and> q < PAGE_COUNT \<and> page_header_addr q \<le> page_header_addr p + j \<and>
            page_header_addr p + j < page_header_addr q + PAGE_HEADER_SIZE"
    using assms by (intro exI[of _ p]) simp
  then show ?thesis unfolding alloc_init_def alloc_init_loop_heap by simp
qed

lemma alloc_init_seg_bit:
  "p < PAGE_COUNT \<Longrightarrow> i < 128 \<Longrightarrow> \<not> seg_bit (heap (alloc_init s)) (page_header_addr p) i"
  using alloc_init_header[of p "i div 8" s]
  by (simp add: seg_bit_def segments_cases)

lemma seg_bit_bitmap_set_other:
  "p \<noteq> q \<Longrightarrow> unat index < 128 \<Longrightarrow> i < 128 \<Longrightarrow>
   seg_bit (bitmap_set hp (page_header_addr q) index) (page_header_addr p) i =
   seg_bit hp (page_header_addr p) i"
  using header_disjoint[of p q "i div 8" "unat index div 8"]
  by (simp add: seg_bit_def bitmap_set_other)

lemma seg_bit_bitmap_set:
  "unat index < 128 \<Longrightarrow> i < 128 \<Longrightarrow>
   seg_bit (bitmap_set hp (page_header_addr q) index) (page_header_addr p) i \<longleftrightarrow>
   seg_bit hp (page_header_addr p) i \<or> (p = q \<and> i = unat index)"
  by (cases "p = q") (simp_all add: seg_bit_bitmap_set_same seg_bit_bitmap_set_other)

lemma find_free_block_least:
  assumes "m < n" "n < 65536" "\<not> seg_bit hp bitmap m" "\<And>j. j < m \<Longrightarrow> seg_bit hp bitmap j"
  shows "find_free_block hp bitmap (of_nat n) = of_nat m"
proof -
  have "unat (of_nat n :: u16) = n" using assms(2) by (simp add: unat_of_nat)
  with assms show ?thesis
    unfolding find_free_block_def by (intro find_free_block_loop_least) simp_all
qed

lemma header_offset_small_all:
  "\<forall>h \<in> set [0..<16]. (word_of_int (int h - 16) :: size_t) mod 16 \<noteq> 0 \<or>
         (word_of_int (int h - 16) :: size_t) div 16 \<ge> 63"
  by code_simp

lemma header_offset_big_all:
  "\<forall>h \<in> set [0..<16]. (word_of_int (int h - 16) :: size_t) mod 192 \<noteq> 0"
  by code_simp

lemma header_offset_small:
  "h < 16 \<Longrightarrow> (word_of_int (int h - 16) :: size_t) mod 16 \<noteq> 0 \<or>
         (word_of_int (int h - 16) :: size_t) div 16 \<ge> 63"
  using header_offset_small_all by simp

lemma header_offset_big:
  "h < 16 \<Longrightarrow> (word_of_int (int h - 16) :: size_t) mod 192 \<noteq> 0"
  using header_offset_big_all by simp

lemma page_of_eq: "page_of a = nat a div 1024"
  by (simp add: page_of_def PAGE_SHIFT_def drop_bit_eq_div)

lemma custom_free_in_heap:
  "0 \<le> a \<Longrightarrow> a < int HEAP_SIZE \<Longrightarrow>
   custom_free s (Ptr a) =
     (if used_segments (page_table s (page_of a)) = 0 then s
      else if type (page_table s (page_of a)) = PAGE_SMALL
        then free_in_page s a (page_of a) SMALL_SEGMENTS ALIGNED_BLOCK_SMALL
      else if type (page_table s (page_of a)) = PAGE_BIG
        then free_in_page s a (page_of a) BIG_SEGMENTS ALIGNED_BLOCK_BIG
      else s)"
  by (simp add: custom_free_def Let_def page_of_def)

lemma free_in_page_data:
  assumes le: "int (page_data_addr p) \<le> a" and a: "a < int HEAP_SIZE"
    and slot: "0 < slot" "slot < 65536" and segs: "segments < 65536"
  shows "free_in_page s a p segments slot =
     (if nat (a - int (page_data_addr p)) mod slot \<noteq> 0 then s
      else if nat (a - int (page_data_addr p)) div slot \<ge> segments then s
      else if \<not> seg_bit (heap s) (page_header_addr p) (nat (a - int (page_data_addr p)) div slot)
        then s
      else release_slot s p (of_nat (nat (a - int (page_data_addr p)) div slot)))"
proof -
  define d where "d = nat (a - int (page_data_addr p))"
  define off :: size_t where "off = word_of_int (a - int (page_data_addr p))"
  from le a have d: "d < 65536" by (simp add: d_def HEAP_SIZE_def)
  have off: "off = of_nat d" using le by (simp add: off_def d_def)
  have ud: "unat off = d" unfolding off using d by (simp add: unat_of_nat)
  have us: "unat (of_nat slot :: size_t) = slot" using slot by (simp add: unat_of_nat)
  have ug: "unat (of_nat segments :: size_t) = segments" using segs by (simp add: unat_of_nat)
  have m: "off mod of_nat slot = 0 \<longleftrightarrow> d mod slot = 0"
    by (simp add: word_unat_eq_iff unat_mod us ud)
  have dv: "unat (off div of_nat slot) = d div slot"
    by (simp add: unat_div us ud)
  have ge: "off div of_nat slot \<ge> of_nat segments \<longleftrightarrow> d div slot \<ge> segments"
    by (simp add: word_le_nat_alt dv ug)
  have "d div slot < 65536" using d by (meson div_le_dividend le_less_trans)
  then have uc: "(ucast (off div of_nat slot) :: u16) = of_nat (d div slot)"
    and uu: "unat (ucast (off div of_nat slot) :: u16) = d div slot"
    by (simp_all add: word_unat_eq_iff unsigned_ucast_eq take_bit_nat_eq_self dv unat_of_nat)
  have uo: "unat (of_nat (d div slot) :: u16) = d div slot"
    using \<open>d div slot < 65536\<close> by (simp add: unat_of_nat)
  show ?thesis
    unfolding free_in_page_unfold
    unfolding off_def[symmetric] d_def[symmetric]
    by (simp add: m ge bitmap_is_set_iff uc uo)
qed

lemma free_in_page_rejected:
  assumes "(word_of_int (a - int (page_data_addr p)) :: size_t) mod of_nat slot \<noteq> 0 \<or>
           (word_of_int (a - int (page_data_addr p)) :: size_t) div of_nat slot \<ge> of_nat segments"
  shows "free_in_page s a p segments slot = s"
  using assms
proof
  assume h: "(word_of_int (a - int (page_data_addr p)) :: size_t) mod of_nat slot \<noteq> 0"
  show ?thesis unfolding free_in_page_unfold if_P[OF h] by (rule refl)
next
  assume h: "(word_of_int (a - int (page_data_addr p)) :: size_t) div of_nat slot \<ge> of_nat segments"
  show ?thesis unfolding free_in_page_unfold if_P[OF h] if_cancel by (rule refl)
qed

lemma free_in_page_header:
  assumes "a < int (page_data_addr p)" "int (page_header_addr p) \<le> a"
    and "(segments = SMALL_SEGMENTS \<and> slot = ALIGNED_BLOCK_SMALL) \<or>
         (segments = BIG_SEGMENTS \<and> slot = ALIGNED_BLOCK_BIG)"
  shows "free_in_page s a p segments slot = s"
proof -
  define h where "h = nat (a - int (page_header_addr p))"
  from assms(1,2) have h: "h < 16" and d: "a - int (page_data_addr p) = int h - 16"
    by (simp_all add: h_def hdr_addr data_addr)
  have c16: "(of_nat ALIGNED_BLOCK_SMALL :: size_t) = 16" "(of_nat SMALL_SEGMENTS :: size_t) = 63"
    and c192: "(of_nat ALIGNED_BLOCK_BIG :: size_t) = 192"
    by (simp_all add: alloc_consts)
  from assms(3) show ?thesis
  proof
    assume c: "segments = SMALL_SEGMENTS \<and> slot = ALIGNED_BLOCK_SMALL"
    show ?thesis
      by (rule free_in_page_rejected) (simp only: c c16 d header_offset_small[OF h])
  next
    assume c: "segments = BIG_SEGMENTS \<and> slot = ALIGNED_BLOCK_BIG"
    show ?thesis
      by (rule free_in_page_rejected) (simp only: c c192 d header_offset_big[OF h] simp_thms)
  qed
qed

lemma page_of_bounds:
  assumes "0 \<le> a"
  shows "int (page_header_addr (page_of a)) \<le> a" "a < int (page_header_addr (page_of a)) + 1024"
  using assms by (simp_all add: page_of_eq hdr_addr)

lemma page_of_data: "page_of (int (page_data_addr p + k)) = p" if "k < 1008"
  using that by (simp add: page_of_eq data_addr)

lemma free_in_page_misaligned:
  assumes a: "0 \<le> a" "a < int HEAP_SIZE"
    and c: "(segments = SMALL_SEGMENTS \<and> slot = ALIGNED_BLOCK_SMALL) \<or>
            (segments = BIG_SEGMENTS \<and> slot = ALIGNED_BLOCK_BIG)"
    and m: "(a - int (page_data_addr (page_of a))) mod int slot \<noteq> 0"
  shows "free_in_page s a (page_of a) segments slot = s"
proof (cases "a < int (page_data_addr (page_of a))")
  case True
  then show ?thesis using page_of_bounds(1)[OF a(1)] c by (intro free_in_page_header)
next
  case False
  from c have slot: "0 < slot" "slot < 65536" "segments < 65536" by (auto simp add: alloc_consts)
  define d where "d = a - int (page_data_addr (page_of a))"
  from False have d: "0 \<le> d" by (simp add: d_def)
  then have "nat d mod slot = nat (d mod int slot)" by (simp add: nat_mod_distrib)
  moreover have "0 \<le> d mod int slot" using slot(1) by simp
  ultimately have "nat d mod slot \<noteq> 0" using m unfolding d_def[symmetric] by simp
  with False a slot show ?thesis by (simp add: free_in_page_data d_def)
qed

lemma free_in_page_free_slot:
  assumes a: "a = int (page_data_addr p + k * slot)" "a < int HEAP_SIZE"
    and c: "(segments = SMALL_SEGMENTS \<and> slot = ALIGNED_BLOCK_SMALL) \<or>
            (segments = BIG_SEGMENTS \<and> slot = ALIGNED_BLOCK_BIG)"
    and k: "\<not> seg_bit (heap s) (page_header_addr p) k"
  shows "free_in_page s a p segments slot = s"
proof -
  from c have slot: "0 < slot" "slot < 65536" "segments < 65536" by (auto simp add: alloc_consts)
  have "a - int (page_data_addr p) = int (k * slot)" using a(1) by simp
  then have "nat (a - int (page_data_addr p)) = k * slot" by (simp only: nat_int)
  moreover have "int (page_data_addr p) \<le> a" using a(1) by simp
  ultimately show ?thesis using slot k a(2) by (simp add: free_in_page_data)
qed

lemma seg_bit_memset:
  "seg_bit (memset hp b 0 n) b k \<longleftrightarrow> \<not> k div 8 < n \<and> seg_bit hp b k"
  by (simp add: seg_bit_def memset_def)

lemma release_slot_again:
  assumes a: "int (page_data_addr p) \<le> a" "a < int HEAP_SIZE"
    and slot: "0 < slot" "slot < 65536" and segs: "segments < 65536"
    and idx: "idx = of_nat (nat (a - int (page_data_addr p)) div slot)"
  shows "free_in_page (release_slot s p idx) a p segments slot = release_slot s p idx"
proof -
  define k where "k = nat (a - int (page_data_addr p)) div slot"
  have "nat (a - int (page_data_addr p)) < 65536" using a by (simp add: HEAP_SIZE_def)
  moreover have "k \<le> nat (a - int (page_data_addr p))" by (simp add: k_def)
  ultimately have "k < 65536" by simp
  then have uk: "unat idx = k" by (simp add: idx unat_of_nat flip: k_def)
  have "\<not> seg_bit (bitmap_clear (heap s) (page_header_addr p) idx) (page_header_addr p) k"
    by (simp add: seg_bit_bitmap_clear_same uk)
  then have "\<not> seg_bit (heap (release_slot s p idx)) (page_header_addr p) k"
    by (simp add: release_slot_simps seg_bit_memset)
  then show ?thesis
    using a slot segs by (simp add: free_in_page_data flip: k_def)
qed

lemma custom_free_idem: "custom_free (custom_free s ptr) ptr = custom_free s ptr"
proof (cases ptr)
  case NULL
  then show ?thesis by (simp add: custom_free_def)
next
  case (Ptr a)
  show ?thesis
  proof (cases "0 \<le> a \<and> a < int HEAP_SIZE")
    case False
    with Ptr show ?thesis by (auto simp add: custom_free_def)
  next
    case True
    then have a: "0 \<le> a" "a < int HEAP_SIZE" by simp_all
    define p where "p = page_of a"
    note cf = custom_free_in_heap[OF a, folded p_def]
    have step: "custom_free (free_in_page s a p segments slot) (Ptr a) = free_in_page s a p segments slot"
      if c: "(type (page_table s p) = PAGE_SMALL \<and> segments = SMALL_SEGMENTS \<and> slot = ALIGNED_BLOCK_SMALL) \<or>
             (type (page_table s p) = PAGE_BIG \<and> segments = BIG_SEGMENTS \<and> slot = ALIGNED_BLOCK_BIG)"
        and used: "used_segments (page_table s p) \<noteq> 0"
      for segments slot
    proof -
      have first: "custom_free s (Ptr a) = free_in_page s a p segments slot"
        using c used by (auto simp add: cf)
      show ?thesis
      proof (cases "free_in_page s a p segments slot = s")
        case True
        with first show ?thesis by simp
      next
        case diff: False
        have nh: "\<not> a < int (page_data_addr p)"
        proof
          assume "a < int (page_data_addr p)"
          then have "free_in_page s a p segments slot = s"
            using page_of_bounds(1)[OF a(1)] c unfolding p_def by (intro free_in_page_header) auto
          with diff show False by simp
        qed
        from c have slot: "0 < slot" "slot < 65536" "segments < 65536"
          by (auto simp add: alloc_consts)
        define k where "k = nat (a - int (page_data_addr p)) div slot"
        have le: "int (page_data_addr p) \<le> a" using nh by simp
        note fd = free_in_page_data[OF le a(2) slot, of s, folded k_def]
        from diff have r: "free_in_page s a p segments slot = release_slot s p (of_nat k)"
          unfolding fd by (simp split: if_splits)
        have again: "free_in_page (release_slot s p (of_nat k)) a p segments slot =
                     release_slot s p (of_nat k)"
          using le a(2) slot by (intro release_slot_again) (simp_all add: k_def)
        show ?thesis
        proof (cases "used_segments (page_table s p) - 1 = 0")
          case True
          then have "used_segments (page_table (release_slot s p (of_nat k)) p) = 0"
            by (simp add: release_slot_simps)
          then show ?thesis unfolding r
            by (simp add: custom_free_in_heap[OF a, folded p_def])
        next
          case False
          then have "page_table (release_slot s p (of_nat k)) p =
               (page_table s p)\<lparr>used_segments := used_segments (page_table s p) - 1\<rparr>"
            by (simp add: release_slot_simps)
          with False c again show ?thesis unfolding r
            by (auto simp add: custom_free_in_heap[OF a, folded p_def])
        qed
      qed
    qed
    show ?thesis
    proof (cases "used_segments (page_table s p) = 0")
      case True
      then have "custom_free s (Ptr a) = s" by (simp add: cf)
      then show ?thesis unfolding Ptr by simp
    next
      case used: False
      show ?thesis
      proof (cases "type (page_table s p)")
        case PAGE_FREE
        with used have "custom_free s (Ptr a) = s" by (simp add: cf)
        then show ?thesis unfolding Ptr by simp
      next
        case PAGE_SMALL
        with used have "custom_free s (Ptr a) = free_in_page s a p SMALL_SEGMENTS ALIGNED_BLOCK_SMALL"
          by (simp add: cf)
        with step[of SMALL_SEGMENTS ALIGNED_BLOCK_SMALL] PAGE_SMALL used show ?thesis
          unfolding Ptr by simp
      next
        case PAGE_BIG
        with used have "custom_free s (Ptr a) = free_in_page s a p BIG_SEGMENTS ALIGNED_BLOCK_BIG"
          by (simp add: cf)
        with step[of BIG_SEGMENTS ALIGNED_BLOCK_BIG] PAGE_BIG used show ?thesis
          unfolding Ptr by simp
      qed
    qed
  qed
qed

lemma first_alloc_small:
  "alloc_small (alloc_init s) = (Ptr 16, open_page page_set_small (alloc_init s) 0)"
proof -
  have pt0: "page_table (alloc_init s) p = \<lparr>used_segments = 0, type = PAGE_FREE\<rparr>"
    if "p < PAGE_COUNT" for p
    using that by (simp add: alloc_init_page_table)
  have "alloc_scan PAGE_SMALL SMALL_SEGMENTS ALIGNED_BLOCK_SMALL (alloc_init s) 0 = None"
    by (rule alloc_scan_None) (simp add: scan_hit_def pt0)
  moreover have "alloc_fresh page_set_small (alloc_init s) 0 =
      Some (Ptr (int (page_data_addr 0)), open_page page_set_small (alloc_init s) 0)"
    by (rule alloc_fresh_first) (simp_all add: pt0 segments_cases)
  ultimately show ?thesis by (simp add: alloc_small_def data_addr)
qed

lemma first_alloc_big:
  "alloc_big (alloc_init s) = (Ptr 16, open_page page_set_big (alloc_init s) 0)"
proof -
  have pt0: "page_table (alloc_init s) p = \<lparr>used_segments = 0, type = PAGE_FREE\<rparr>"
    if "p < PAGE_COUNT" for p
    using that by (simp add: alloc_init_page_table)
  have "alloc_scan PAGE_BIG BIG_SEGMENTS ALIGNED_BLOCK_BIG (alloc_init s) 0 = None"
    by (rule alloc_scan_None) (simp add: scan_hit_def pt0)
  moreover have "alloc_fresh page_set_big (alloc_init s) 0 =
      Some (Ptr (int (page_data_addr 0)), open_page page_set_big (alloc_init s) 0)"
    by (rule alloc_fresh_first) (simp_all add: pt0 segments_cases)
  ultimately show ?thesis by (simp add: alloc_big_def data_addr)
qed

lemma alloc_class_served:
  assumes res: "(case alloc_scan cls segments slot s 0 of
                Some r \<Rightarrow> r
              | None \<Rightarrow> (case alloc_fresh page_set s 0 of Some r \<Rightarrow> r | None \<Rightarrow> (NULL, s)))
              = (Ptr a, s')"
    and cls: "(cls = PAGE_SMALL \<and> page_set = page_set_small) \<or>
              (cls = PAGE_BIG \<and> page_set = page_set_big)"
    and segs: "0 < segments" "segments < 65536"
  shows "\<exists>p k. p < PAGE_COUNT \<and> k < segments \<and> a = int (page_data_addr p + k * slot) \<and>
           type (page_table s' p) = cls"
proof (cases "alloc_scan cls segments slot s 0")
  case (Some r)
  with res have "alloc_scan cls segments slot s 0 = Some (Ptr a, s')" by simp
  from alloc_scan_Some[OF this] obtain q where
    q: "q < PAGE_COUNT" "scan_hit cls segments s q"
       "a = int (page_data_addr q +
               unat (find_free_block (heap s) (page_header_addr q) (of_nat segments)) * slot)"
       "s' = take_slot s q (find_free_block (heap s) (page_header_addr q) (of_nat segments))"
    by auto
  from q(2) have "find_free_block (heap s) (page_header_addr q) (of_nat segments) \<noteq> UINT16_MAX"
    and ty: "type (page_table s q) = cls"
    by (simp_all add: scan_hit_def)
  from find_free_block_sound[OF this(1) segs(2)]
  have "unat (find_free_block (heap s) (page_header_addr q) (of_nat segments)) < segments"
    by simp
  with q ty show ?thesis
    by (intro exI[of _ q]
        exI[of _ "unat (find_free_block (heap s) (page_header_addr q) (of_nat segments))"]) simp
next
  case None
  with res obtain r where f: "alloc_fresh page_set s 0 = Some r" and r: "r = (Ptr a, s')"
    by (cases "alloc_fresh page_set s 0") simp_all
  from alloc_fresh_Some[OF f[unfolded r]] obtain q where
    q: "q < PAGE_COUNT" "a = int (page_data_addr q)" "s' = open_page page_set s q"
    by auto
  from cls q segs show ?thesis
    by (intro exI[of _ q] exI[of _ 0]) auto
qed

lemma header_offset_huge:
  assumes "h < 16"
  shows "unat (word_of_int (int h - 16) :: size_t) = 2 ^ 64 - 16 + h"
proof -
  from assms have "h = 0 \<or> h = 1 \<or> h = 2 \<or> h = 3 \<or> h = 4 \<or> h = 5 \<or> h = 6 \<or> h = 7 \<or>
      h = 8 \<or> h = 9 \<or> h = 10 \<or> h = 11 \<or> h = 12 \<or> h = 13 \<or> h = 14 \<or> h = 15"
    by arith
  then show ?thesis
    by (elim disjE) (simp_all add: unsigned_minus_1_eq_mask mask_eq_exp_minus_1)
qed

lemma custom_free_slot_clear:
  assumes p: "p < PAGE_COUNT" and k: "k < segments"
    and c: "(type (page_table s p) = PAGE_SMALL \<and> segments = SMALL_SEGMENTS \<and> slot = ALIGNED_BLOCK_SMALL) \<or>
            (type (page_table s p) = PAGE_BIG \<and> segments = BIG_SEGMENTS \<and> slot = ALIGNED_BLOCK_BIG)"
    and clear: "\<not> seg_bit (heap s) (page_header_addr p) k"
    and a: "a = int (page_data_addr p + k * slot)"
  shows "custom_free s (Ptr a) = s"
proof -
  from c k have ks: "k * slot < 1008" by (auto simp add: alloc_consts)
  from p ks have "page_data_addr p + k * slot < HEAP_SIZE"
    by (simp add: alloc_consts data_addr)
  then have r: "0 \<le> a" "a < int HEAP_SIZE"
    unfolding a by (simp_all only: of_nat_less_iff of_nat_0_le_iff)
  have pg: "page_of a = p" unfolding a
    using page_of_data[OF ks] by simp
  have "free_in_page s a p segments slot = s"
    using a r(2) c clear by (intro free_in_page_free_slot[where k = k]) auto
  with c show ?thesis by (auto simp add: custom_free_in_heap[OF r] pg)
qed

lemma filledD:
  assumes "filled k s" "p < 64"
  shows "type (page_table s p) = (if p * 63 < k then PAGE_SMALL else PAGE_FREE)"
    and "unat (used_segments (page_table s p)) = min 63 (k - p * 63)"
    and "i < 63 \<Longrightarrow> seg_bit (heap s) (page_header_addr p) i \<longleftrightarrow> i < k - p * 63"
  using assms by (simp_all add: filled_def segments_cases)

lemma filledI:
  assumes "\<And>p. p < 64 \<Longrightarrow>
      type (page_table s p) = (if p * 63 < k then PAGE_SMALL else PAGE_FREE) \<and>
      unat (used_segments (page_table s p)) = min 63 (k - p * 63) \<and>
      (\<forall>i<63. seg_bit (heap s) (page_header_addr p) i \<longleftrightarrow> i < k - p * 63)"
  shows "filled k s"
  using assms by (simp add: filled_def segments_cases)

lemma filled_init: "filled 0 (alloc_init s)"
  by (rule filledI) (simp add: alloc_init_page_table alloc_init_seg_bit segments_cases)

lemma filled_full:
  assumes "filled 4032 s"
  shows "alloc_small s = (NULL, s)"
proof -
  note F = filledD[OF assms]
  have "alloc_scan PAGE_SMALL SMALL_SEGMENTS ALIGNED_BLOCK_SMALL s 0 = None"
  proof (rule alloc_scan_None, intro allI impI)
    fix p assume "0 \<le> p \<and> p < PAGE_COUNT"
    then have p: "p < 64" by (simp add: segments_cases)
    from F(2)[OF p] p have "unat (used_segments (page_table s p)) = 63" by simp
    then show "\<not> scan_hit PAGE_SMALL SMALL_SEGMENTS s p"
      by (simp add: scan_hit_def segments_cases)
  qed
  moreover have "alloc_fresh page_set_small s 0 = None"
  proof (rule alloc_fresh_None, intro allI impI)
    fix p assume "0 \<le> p \<and> p < PAGE_COUNT"
    then have p: "p < 64" by (simp add: segments_cases)
    from F(1)[OF p] p show "type (page_table s p) \<noteq> PAGE_FREE" by simp
  qed
  ultimately show ?thesis by (simp add: alloc_small_def)
qed

lemma filled_step_partial:
  assumes f: "filled k s" and k: "k = q * 63 + r" and r: "0 < r" "r < 63" and q: "q < 64"
  shows "alloc_small s = (Ptr (int (page_data_addr q + r * 16)), take_slot s q (of_nat r))"
    and "filled (Suc k) (take_slot s q (of_nat r))"
proof -
  note F = filledD[OF f]
  have ur: "unat (of_nat r :: u16) = r" using r by (simp add: unat_of_nat)
  have used_q: "unat (used_segments (page_table s q)) = r"
    using F(2)[OF q] k r by simp
  have ty_q: "type (page_table s q) = PAGE_SMALL"
    using F(1)[OF q] k r by simp
  have fb: "find_free_block (heap s) (page_header_addr q) (of_nat SMALL_SEGMENTS) = of_nat r"
  proof (rule find_free_block_least)
    show "\<not> seg_bit (heap s) (page_header_addr q) r" using F(3)[OF q r(2)] k by simp
    show "seg_bit (heap s) (page_header_addr q) j" if "j < r" for j
      using F(3)[OF q, of j] that r k by simp
  qed (use r in \<open>simp_all add: segments_cases\<close>)
  have ne: "(of_nat r :: u16) \<noteq> UINT16_MAX"
    using ur r by (auto simp add: UINT16_MAX_def)
  have hit: "scan_hit PAGE_SMALL SMALL_SEGMENTS s q"
    unfolding scan_hit_def fb using ty_q used_q r ne by (simp add: segments_cases)
  have nohit: "\<forall>p. 0 \<le> p \<and> p < q \<longrightarrow> \<not> scan_hit PAGE_SMALL SMALL_SEGMENTS s p"
  proof (intro allI impI)
    fix p assume "0 \<le> p \<and> p < q"
    then have p: "p < 64" "p < q" using q by simp_all
    from F(2)[OF p(1)] p(2) k have "unat (used_segments (page_table s p)) = 63" by simp
    then show "\<not> scan_hit PAGE_SMALL SMALL_SEGMENTS s p"
      by (simp add: scan_hit_def segments_cases)
  qed
  have "alloc_scan PAGE_SMALL SMALL_SEGMENTS ALIGNED_BLOCK_SMALL s 0 =
     Some (Ptr (int (page_data_addr q +
             unat (find_free_block (heap s) (page_header_addr q) (of_nat SMALL_SEGMENTS)) *
               ALIGNED_BLOCK_SMALL)),
           take_slot s q (find_free_block (heap s) (page_header_addr q) (of_nat SMALL_SEGMENTS)))"
    using q hit nohit by (intro alloc_scan_first) (simp_all add: segments_cases)
  then show "alloc_small s = (Ptr (int (page_data_addr q + r * 16)), take_slot s q (of_nat r))"
    by (simp add: alloc_small_def fb ur ALIGNED_BLOCK_SMALL_def)
  show "filled (Suc k) (take_slot s q (of_nat r))"
  proof (rule filledI, intro conjI allI impI)
    fix p :: nat assume p: "p < 64"
    show "type (page_table (take_slot s q (of_nat r)) p) =
          (if p * 63 < Suc k then PAGE_SMALL else PAGE_FREE)"
      using F(1)[OF p] k r by (cases "p = q") auto
    show "unat (used_segments (page_table (take_slot s q (of_nat r)) p)) = min 63 (Suc k - p * 63)"
    proof (cases "p = q")
      case True
      have "unat (used_segments (page_table s q) + 1) = unat (used_segments (page_table s q)) + 1"
        using used_q r by (intro unat_inc_small[where n = 63]) simp_all
      with True used_q k r show ?thesis by simp
    next
      case False
      then have "p < q \<or> q < p" by auto
      with F(2)[OF p] k r False show ?thesis by auto
    qed
    fix i :: nat assume i: "i < 63"
    have "seg_bit (heap (take_slot s q (of_nat r))) (page_header_addr p) i \<longleftrightarrow>
          seg_bit (heap s) (page_header_addr p) i \<or> (p = q \<and> i = r)"
      using i r by (simp add: seg_bit_bitmap_set ur)
    also have "\<dots> \<longleftrightarrow> i < Suc k - p * 63"
    proof (cases "p = q")
      case True
      with F(3)[OF p i] k r i show ?thesis by auto
    next
      case False
      then have "p < q \<or> q < p" by auto
      with F(3)[OF p i] k r i False show ?thesis by auto
    qed
    finally show "seg_bit (heap (take_slot s q (of_nat r))) (page_header_addr p) i \<longleftrightarrow>
          i < Suc k - p * 63" .
  qed
qed

lemma filled_step_fresh:
  assumes f: "filled k s" and k: "k = q * 63" and q: "q < 64"
  shows "alloc_small s = (Ptr (int (page_data_addr q)), open_page page_set_small s q)"
    and "filled (Suc k) (open_page page_set_small s q)"
proof -
  note F = filledD[OF f]
  have "alloc_scan PAGE_SMALL SMALL_SEGMENTS ALIGNED_BLOCK_SMALL s 0 = None"
  proof (rule alloc_scan_None, intro allI impI)
    fix p assume "0 \<le> p \<and> p < PAGE_COUNT"
    then have p: "p < 64" by (simp add: segments_cases)
    show "\<not> scan_hit PAGE_SMALL SMALL_SEGMENTS s p"
    proof (cases "p < q")
      case True
      with F(2)[OF p] k have "unat (used_segments (page_table s p)) = 63" by simp
      then show ?thesis by (simp add: scan_hit_def segments_cases)
    next
      case False
      with F(1)[OF p] k have "type (page_table s p) = PAGE_FREE" by simp
      then show ?thesis by (simp add: scan_hit_def)
    qed
  qed
  moreover have "alloc_fresh page_set_small s 0 =
      Some (Ptr (int (page_data_addr q)), open_page page_set_small s q)"
  proof (rule alloc_fresh_first)
    show "type (page_table s q) = PAGE_FREE" using F(1)[OF q] k by simp
    show "\<forall>p. 0 \<le> p \<and> p < q \<longrightarrow> type (page_table s p) \<noteq> PAGE_FREE"
    proof (intro allI impI)
      fix p assume "0 \<le> p \<and> p < q"
      then have p: "p < 64" "p < q" using q by simp_all
      from F(1)[OF p(1)] p(2) k show "type (page_table s p) \<noteq> PAGE_FREE" by simp
    qed
  qed (use q in \<open>simp_all add: segments_cases\<close>)
  ultimately show "alloc_small s = (Ptr (int (page_data_addr q)), open_page page_set_small s q)"
    by (simp add: alloc_small_def)
  show "filled (Suc k) (open_page page_set_small s q)"
  proof (rule filledI, intro conjI allI impI)
    fix p :: nat assume p: "p < 64"
    show "type (page_table (open_page page_set_small s q) p) =
          (if p * 63 < Suc k then PAGE_SMALL else PAGE_FREE)"
      using F(1)[OF p] k by (cases "p = q") auto
    show "unat (used_segments (page_table (open_page page_set_small s q) p)) =
          min 63 (Suc k - p * 63)"
    proof (cases "p = q")
      case True
      with k show ?thesis by simp
    next
      case False
      then have "p < q \<or> q < p" by auto
      with F(2)[OF p] k False show ?thesis by auto
    qed
    fix i :: nat assume i: "i < 63"
    have "seg_bit (heap (open_page page_set_small s q)) (page_header_addr p) i \<longleftrightarrow>
          seg_bit (heap s) (page_header_addr p) i \<or> (p = q \<and> i = 0)"
      using i by (simp add: seg_bit_bitmap_set)
    also have "\<dots> \<longleftrightarrow> i < Suc k - p * 63"
    proof (cases "p = q")
      case True
      with F(3)[OF p i] k i show ?thesis by auto
    next
      case False
      then have "p < q \<or> q < p" by auto
      with F(3)[OF p i] k i False show ?thesis by auto
    qed
    finally show "seg_bit (heap (open_page page_set_small s q)) (page_header_addr p) i \<longleftrightarrow>
          i < Suc k - p * 63" .
  qed
qed

lemma filled_step:
  assumes f: "filled k s" and k: "k < 4032"
  shows "fst (alloc_small s) = Ptr (slot_addr k) \<and> filled (Suc k) (snd (alloc_small s))"
proof -
  define q where "q = k div 63"
  define r where "r = k mod 63"
  have kq: "k = q * 63 + r" and r: "r < 63" and q: "q < 64"
    using k by (simp_all add: q_def r_def)
  have sa: "slot_addr k = int (page_data_addr q + r * 16)"
    by (simp add: slot_addr_def q_def r_def alloc_consts)
  show ?thesis
  proof (cases "r = 0")
    case True
    with kq have "k = q * 63" by simp
    from filled_step_fresh[OF f this q] True sa show ?thesis by simp
  next
    case False
    then have "0 < r" by simp
    from filled_step_partial[OF f kq this r q] sa show ?thesis by simp
  qed
qed

lemma alloc_many_append:
  "alloc_many (xs @ ys) s =
     (let (ps, s1) = alloc_many xs s; (qs, s2) = alloc_many ys s1 in (ps @ qs, s2))"
  by (induction xs arbitrary: s) (simp_all add: split_beta Let_def)

lemma custom_malloc_small: "1 \<le> unat sz \<Longrightarrow> unat sz \<le> 15 \<Longrightarrow> custom_malloc s sz = alloc_small s"
  by (auto simp add: custom_malloc_def BLOCK_SMALL_def)

lemma alloc_many_filled:
  "filled k s \<Longrightarrow> (\<forall>sz \<in> set szs. 1 \<le> unat sz \<and> unat sz \<le> 15) \<Longrightarrow>
   k + length szs \<le> 4032 \<Longrightarrow>
   fst (alloc_many szs s) = map (\<lambda>i. Ptr (slot_addr i)) [k..<k + length szs] \<and>
   filled (k + length szs) (snd (alloc_many szs s))"
proof (induction szs arbitrary: k s)
  case Nil
  then show ?case by simp
next
  case (Cons sz szs)
  from Cons.prems have k: "k < 4032" by simp
  from Cons.prems have m: "custom_malloc s sz = alloc_small s"
    by (intro custom_malloc_small) simp_all
  note st = filled_step[OF Cons.prems(1) k]
  from st have f': "filled (Suc k) (snd (alloc_small s))" by simp
  have ih: "fst (alloc_many szs (snd (alloc_small s))) =
              map (\<lambda>i. Ptr (slot_addr i)) [Suc k..<Suc k + length szs] \<and>
            filled (Suc k + length szs) (snd (alloc_many szs (snd (alloc_small s))))"
    using Cons.prems by (intro Cons.IH[OF f']) simp_all
  have "k < k + length (sz # szs)" by simp
  from upt_conv_Cons[OF this]
  have u: "[k..<k + length (sz # szs)] = k # [Suc k..<Suc k + length szs]" by simp
  have "fst (alloc_many (sz # szs) s) =
          fst (alloc_small s) # fst (alloc_many szs (snd (alloc_small s)))"
    and "snd (alloc_many (sz # szs) s) = snd (alloc_many szs (snd (alloc_small s)))"
    by (simp_all add: m split_beta Let_def)
  with st ih show ?case
    unfolding u by simp
qed

subsection \<open>The allocation algorithm\<close>

lemma scan_hit_has_room:
  assumes "segments < 65535"
  shows "scan_hit cls segments s p \<longleftrightarrow> has_room cls segments s p"
proof -
  let ?fb = "find_free_block (heap s) (page_header_addr p) (of_nat segments)"
  have "?fb \<noteq> UINT16_MAX \<longleftrightarrow> (\<exists>i \<in> {0..<segments}. \<not> seg_bit (heap s) (page_header_addr p) i)"
  proof
    assume "?fb \<noteq> UINT16_MAX"
    from find_free_block_sound [OF this] assms
    have "unat ?fb < segments" "\<not> seg_bit (heap s) (page_header_addr p) (unat ?fb)" by simp_all
    then show "\<exists>i \<in> {0..<segments}. \<not> seg_bit (heap s) (page_header_addr p) i" by auto
  next
    assume "\<exists>i \<in> {0..<segments}. \<not> seg_bit (heap s) (page_header_addr p) i"
    then obtain i where i: "i < segments" "\<not> seg_bit (heap s) (page_header_addr p) i" by auto
    define m where "m = (LEAST i. i < segments \<and> \<not> seg_bit (heap s) (page_header_addr p) i)"
    have m: "m < segments \<and> \<not> seg_bit (heap s) (page_header_addr p) m"
      unfolding m_def by (rule LeastI [of _ i]) (use i in simp)
    have least: "seg_bit (heap s) (page_header_addr p) j" if "j < m" for j
      using not_less_Least [of j "\<lambda>i. i < segments \<and> \<not> seg_bit (heap s) (page_header_addr p) i"]
        that m unfolding m_def by auto
    have "?fb = of_nat m"
      using m assms least by (intro find_free_block_least) simp_all
    moreover have "unat (of_nat m :: u16) = m" using m assms by (simp add: unat_of_nat)
    then have "(of_nat m :: u16) \<noteq> UINT16_MAX"
      using m assms by (auto simp: UINT16_MAX_def)
    ultimately show "?fb \<noteq> UINT16_MAX" by simp
  qed
  then show ?thesis by (simp add: scan_hit_def has_room_def)
qed

lemma h_page_fields: "e\<lparr>type := t, used_segments := u\<rparr> = \<lparr>used_segments = u, type = t\<rparr>"
  by (cases e) simp

lemma allocator_fields: "s\<lparr>heap := h, page_table := t\<rparr> = \<lparr>heap = h, page_table = t\<rparr>"
  by (cases s) simp

lemma take_slot_mark_slot:
  assumes "k < 65536"
  shows "take_slot s p (of_nat k)
         = mark_slot s p k ((page_table s p)\<lparr>used_segments := used_segments (page_table s p) + 1\<rparr>)"
proof -
  have u: "unat (of_nat k :: u16) = k" using assms by (simp add: unat_of_nat)
  show ?thesis
    by (simp add: take_slot_def mark_slot_def set_used_def bitmap_set_def unat_drop3 unat_and7 u
        allocator_fields)
qed

lemma open_page_mark_slot:
  "open_page page_set_small s p = mark_slot s p 0 \<lparr>used_segments = 1, type = PAGE_SMALL\<rparr>"
  "open_page page_set_big s p = mark_slot s p 0 \<lparr>used_segments = 1, type = PAGE_BIG\<rparr>"
  by (simp_all add: open_page_def mark_slot_def page_set_small_def page_set_big_def set_used_def
      set_type_def bitmap_set_def h_page_fields allocator_fields)

lemma alloc_class_partial:
  assumes "segments < 65535"
    and "p < PAGE_COUNT" "has_room cls segments s p" "\<forall>q<p. \<not> has_room cls segments s q"
    and "k < segments" "\<not> seg_bit (heap s) (page_header_addr p) k"
        "\<forall>j<k. seg_bit (heap s) (page_header_addr p) j"
  shows "alloc_scan cls segments slot s 0 =
         Some (Ptr (int (page_data_addr p + k * slot)),
               mark_slot s p k \<lparr>used_segments = used_segments (page_table s p) + 1, type = cls\<rparr>)"
proof -
  have fb: "find_free_block (heap s) (page_header_addr p) (of_nat segments) = of_nat k"
    using assms by (intro find_free_block_least) simp_all
  have u: "unat (of_nat k :: u16) = k" using assms(1,5) by (simp add: unat_of_nat)
  have ty: "type (page_table s p) = cls" using assms(3) by (simp add: has_room_def)
  have e: "(page_table s p)\<lparr>used_segments := used_segments (page_table s p) + 1\<rparr>
           = \<lparr>used_segments = used_segments (page_table s p) + 1, type = cls\<rparr>"
    using ty by (cases "page_table s p") simp
  have a: "alloc_scan cls segments slot s 0 =
     Some (Ptr (int (page_data_addr p +
             unat (find_free_block (heap s) (page_header_addr p) (of_nat segments)) * slot)),
           take_slot s p (find_free_block (heap s) (page_header_addr p) (of_nat segments)))"
    using assms(2,3,4) by (intro alloc_scan_first) (simp_all add: scan_hit_has_room [OF assms(1)])
  have t: "take_slot s p (of_nat k) = mark_slot s p k
               \<lparr>used_segments = used_segments (page_table s p) + 1, type = cls\<rparr>"
    using take_slot_mark_slot [of k s p] assms(1,5) unfolding e by simp
  show ?thesis unfolding a fb u t ..
qed

lemma alloc_class_no_room:
  assumes "segments < 65535" and "\<forall>q<PAGE_COUNT. \<not> has_room cls segments s q"
  shows "alloc_scan cls segments slot s 0 = None"
  using assms(2) by (intro alloc_scan_None) (simp add: scan_hit_has_room [OF assms(1)])

lemma custom_malloc_class:
  "1 \<le> unat sz \<and> unat sz \<le> 15 \<and> cls = PAGE_SMALL \<and> segments = SMALL_SEGMENTS \<and>
     slot = ALIGNED_BLOCK_SMALL \<and> page_set = page_set_small \<or>
   16 \<le> unat sz \<and> unat sz \<le> 180 \<and> cls = PAGE_BIG \<and> segments = BIG_SEGMENTS \<and>
     slot = ALIGNED_BLOCK_BIG \<and> page_set = page_set_big \<Longrightarrow>
   custom_malloc s sz =
     (case alloc_scan cls segments slot s 0 of
        Some r \<Rightarrow> r
      | None \<Rightarrow> (case alloc_fresh page_set s 0 of Some r \<Rightarrow> r | None \<Rightarrow> (NULL, s)))"
  by (auto simp: custom_malloc_def alloc_small_def alloc_big_def BLOCK_SMALL_def BLOCK_BIG_def)

lemma least_witness:
  fixes P :: "nat \<Rightarrow> bool"
  assumes "P i" "i < n"
  shows "\<exists>m. m < n \<and> P m \<and> (\<forall>j<m. \<not> P j)"
proof -
  define m where "m = (LEAST m. P m)"
  have 1: "P m" unfolding m_def using assms(1) by (rule LeastI)
  have "m \<le> i" unfolding m_def using assms(1) by (rule Least_le)
  then have 2: "m < n" using assms(2) by simp
  have 3: "\<not> P j" if "j < m" for j using that unfolding m_def by (rule not_less_Least)
  show ?thesis
  proof (intro exI conjI allI impI)
    show "m < n" by (rule 2)
    show "P m" by (rule 1)
    show "\<not> P j" if "j < m" for j by (rule 3 [OF that])
  qed
qed

lemma alloc_cases_exhaustive:
  "(\<exists>p k. p < PAGE_COUNT \<and> has_room cls segments s p \<and> (\<forall>q<p. \<not> has_room cls segments s q) \<and>
          k < segments \<and> \<not> seg_bit (heap s) (page_header_addr p) k \<and>
          (\<forall>j<k. seg_bit (heap s) (page_header_addr p) j)) \<or>
   ((\<forall>q<PAGE_COUNT. \<not> has_room cls segments s q) \<and>
    (\<exists>p. p < PAGE_COUNT \<and> type (page_table s p) = PAGE_FREE \<and>
         (\<forall>q<p. type (page_table s q) \<noteq> PAGE_FREE))) \<or>
   (\<forall>q<PAGE_COUNT. \<not> has_room cls segments s q \<and> type (page_table s q) \<noteq> PAGE_FREE)"
proof (cases "\<exists>q<PAGE_COUNT. has_room cls segments s q")
  case True
  then obtain q where "has_room cls segments s q" "q < PAGE_COUNT" by blast
  from least_witness [of "has_room cls segments s", OF this] obtain p where
    p: "p < PAGE_COUNT" "has_room cls segments s p" "\<forall>q<p. \<not> has_room cls segments s q" by blast
  from p(2) obtain i where "\<not> seg_bit (heap s) (page_header_addr p) i" "i < segments"
    by (auto simp: has_room_def)
  from least_witness [of "\<lambda>i. \<not> seg_bit (heap s) (page_header_addr p) i", OF this] obtain k where
    k: "k < segments" "\<not> seg_bit (heap s) (page_header_addr p) k"
    "\<forall>j<k. seg_bit (heap s) (page_header_addr p) j" by auto
  have "p < PAGE_COUNT \<and> has_room cls segments s p \<and> (\<forall>q<p. \<not> has_room cls segments s q) \<and>
          k < segments \<and> \<not> seg_bit (heap s) (page_header_addr p) k \<and>
          (\<forall>j<k. seg_bit (heap s) (page_header_addr p) j)"
    using p k by (intro conjI)
  then show ?thesis by (intro disjI1 exI)
next
  case no_room: False
  then have nr: "\<forall>q<PAGE_COUNT. \<not> has_room cls segments s q" by simp
  show ?thesis
  proof (cases "\<exists>q<PAGE_COUNT. type (page_table s q) = PAGE_FREE")
    case True
    then obtain q where "type (page_table s q) = PAGE_FREE" "q < PAGE_COUNT" by blast
    from least_witness [of "\<lambda>q. type (page_table s q) = PAGE_FREE", OF this] obtain p where
      "p < PAGE_COUNT \<and> type (page_table s p) = PAGE_FREE \<and>
         (\<forall>q<p. type (page_table s q) \<noteq> PAGE_FREE)" by blast
    then have "\<exists>p. p < PAGE_COUNT \<and> type (page_table s p) = PAGE_FREE \<and>
         (\<forall>q<p. type (page_table s q) \<noteq> PAGE_FREE)" ..
    with nr show ?thesis by (intro disjI2 disjI1 conjI)
  next
    case False
    then have "\<forall>q<PAGE_COUNT. type (page_table s q) \<noteq> PAGE_FREE" by simp
    with nr have "\<forall>q<PAGE_COUNT. \<not> has_room cls segments s q \<and> type (page_table s q) \<noteq> PAGE_FREE"
      by simp
    then show ?thesis by (intro disjI2)
  qed
qed

lemma has_room_inv:
  assumes "alloc_inv s" "p < PAGE_COUNT"
    and "cls = PAGE_SMALL \<and> segments = SMALL_SEGMENTS \<or> cls = PAGE_BIG \<and> segments = BIG_SEGMENTS"
  shows "has_room cls segments s p \<longleftrightarrow>
         type (page_table s p) = cls \<and> unat (used_segments (page_table s p)) < segments"
proof -
  have "\<exists>i \<in> {0..<segments}. \<not> seg_bit (heap s) (page_header_addr p) i"
    if ty: "type (page_table s p) = cls" and u: "unat (used_segments (page_table s p)) < segments"
  proof (rule ccontr)
    assume "\<not> (\<exists>i \<in> {0..<segments}. \<not> seg_bit (heap s) (page_header_addr p) i)"
    then have "\<forall>i. i < segments \<longrightarrow> seg_bit (heap s) (page_header_addr p) i" by simp
    then have "{i. i < segments \<and> seg_bit (heap s) (page_header_addr p) i} = {..<segments}"
      by (intro set_eqI) (simp, blast)
    then have "popcount (heap s) (page_header_addr p) segments = segments"
      by (simp add: popcount_card)
    moreover have "page_ok s p" using assms(1,2) by (simp add: alloc_inv_def)
    then have "unat (used_segments (page_table s p)) = popcount (heap s) (page_header_addr p) segments"
      using assms(3) ty by (elim disjE) (simp_all add: page_ok_def)
    ultimately show False using u by simp
  qed
  then show ?thesis unfolding has_room_def by blast
qed

lemma has_room_init: "p < PAGE_COUNT \<Longrightarrow> cls \<noteq> PAGE_FREE \<Longrightarrow> \<not> has_room cls segments (alloc_init s) p"
  by (simp add: has_room_def alloc_init_page_table)

lemma has_room_garbage:
  "\<not> has_room PAGE_SMALL SMALL_SEGMENTS garbage p" "\<not> has_room PAGE_BIG BIG_SEGMENTS garbage p"
  "type (page_table garbage p) \<noteq> PAGE_FREE"
  by (simp_all add: has_room_def garbage_def segments_cases)

lemma seg_bit_mark_slot_first:
  assumes "heap s (page_header_addr p) = 0"
  shows "seg_bit (heap (mark_slot s p 0 e)) (page_header_addr p) 0"
    and "\<not> seg_bit (heap (mark_slot s p 0 e)) (page_header_addr p) 1"
  using assms by (simp_all add: seg_bit_def mark_slot_def)


section \<open>The allocator: the claims\<close>


text \<open>
  \<^bold>\<open>Claim C1.\<close> In every state reachable from \<^verbatim>\<open>alloc_init()\<close> by calls of
  \<^verbatim>\<open>custom_malloc\<close> and \<^verbatim>\<open>custom_free\<close>, every page of type SMALL or BIG has
  \<open>used_segments\<close> equal to the population count of the first \<open>SMALL_SEGMENTS = 63\<close>
  (respectively \<open>BIG_SEGMENTS = 5\<close>) bits of its header bitmap, and every page of type
  FREE has \<open>used_segments = 0\<close> and all 16 header bytes zero.
\<close>

theorem reachable_page_invariant:
  assumes "reachable s" and "p < PAGE_COUNT"
  shows "(type (page_table s p) = PAGE_SMALL \<longrightarrow>
            unat (used_segments (page_table s p)) =
              popcount (heap s) (page_header_addr p) SMALL_SEGMENTS) \<and>
         (type (page_table s p) = PAGE_BIG \<longrightarrow>
            unat (used_segments (page_table s p)) =
              popcount (heap s) (page_header_addr p) BIG_SEGMENTS) \<and>
         (type (page_table s p) = PAGE_FREE \<longrightarrow>
            used_segments (page_table s p) = 0 \<and>
            (\<forall>j<PAGE_HEADER_SIZE. heap s (page_header_addr p + j) = 0))"
proof -
  have "page_ok s p"
    using reachable_inv[OF assms(1)] assms(2) unfolding alloc_inv_def by auto
  then show ?thesis
    unfolding page_ok_def header_zero_def
    by (cases "type (page_table s p)") auto
qed

text \<open>An instance of the theorem above, with its hypotheses discharged.\<close>

theorem reachable_page_invariant_witness:
  "reachable (snd (custom_malloc (alloc_init garbage) 1)) \<and>
   reachable (custom_free (snd (custom_malloc (alloc_init garbage) 1)) (Ptr 16)) \<and>
   (0::nat) < PAGE_COUNT \<and>
   type (page_table (snd (custom_malloc (alloc_init garbage) 1)) 0) = PAGE_SMALL \<and>
   unat (used_segments (page_table (snd (custom_malloc (alloc_init garbage) 1)) 0)) =
     popcount (heap (snd (custom_malloc (alloc_init garbage) 1))) (page_header_addr 0)
       SMALL_SEGMENTS \<and>
   type (page_table (alloc_init garbage) 5) = PAGE_FREE \<and>
   used_segments (page_table (alloc_init garbage) 5) = 0 \<and>
   heap (alloc_init garbage) (page_header_addr 5 + 15) = 0"
proof -
  let ?s = "snd (custom_malloc (alloc_init garbage) 1)"
  have r0: "reachable (alloc_init garbage)" by (rule reachable.init)
  then have r: "reachable ?s" by (rule reachable.malloc)
  then have r2: "reachable (custom_free ?s (Ptr 16))" by (rule reachable.free)
  have p: "(0::nat) < PAGE_COUNT" "(5::nat) < PAGE_COUNT" by (simp_all add: PAGE_COUNT_def alloc_consts)
  have ty: "type (page_table ?s 0) = PAGE_SMALL"
    by (simp add: custom_malloc_def BLOCK_SMALL_def first_alloc_small)
  have ty5: "type (page_table (alloc_init garbage) 5) = PAGE_FREE"
    using p(2) by (simp add: alloc_init_page_table)
  note i1 = reachable_page_invariant[OF r p(1)]
  note i2 = reachable_page_invariant[OF r0 p(2)]
  from i1 ty have u: "unat (used_segments (page_table ?s 0)) =
      popcount (heap ?s) (page_header_addr 0) SMALL_SEGMENTS"
    by blast
  from i2 ty5 have f: "used_segments (page_table (alloc_init garbage) 5) = 0"
    and z: "\<forall>j<PAGE_HEADER_SIZE. heap (alloc_init garbage) (page_header_addr 5 + j) = 0"
    by blast+
  have "(15::nat) < PAGE_HEADER_SIZE" by (simp add: PAGE_HEADER_SIZE_def)
  with z have z15: "heap (alloc_init garbage) (page_header_addr 5 + 15) = 0" by blast
  from r r2 p(1) ty u ty5 f z15 show ?thesis by (intro conjI)
qed

text \<open>
  \<^bold>\<open>Claim C5.\<close> In every state: a request of size 0 or above 180 returns \<^verbatim>\<open>NULL\<close> and
  leaves the state unchanged; a request of 1 to 15 bytes is served from the SMALL class
  (63 slots of 16 bytes per page) and one of 16 to 180 bytes from the BIG class (5 slots
  of 192 bytes per page). Served from a class means the three cases of the allocation
  algorithm, which cover every state (the last conjunct): if some page has room for
  the class, the call
  returns the slot of the lowest clear bit \<open>k\<close> of the first such page \<open>p\<close>, sets that
  bit and increments \<open>used_segments\<close>; otherwise, if some page is FREE, it returns the
  first slot of the first FREE page \<open>p\<close>, which gets the type of the class, bit 0 set
  and \<open>used_segments = 1\<close>; otherwise it returns \<^verbatim>\<open>NULL\<close> and leaves the state unchanged.
\<close>

theorem custom_malloc_size_classes:
  "(sz = 0 \<longrightarrow> custom_malloc s sz = (NULL, s)) \<and>
   (180 < unat sz \<longrightarrow> custom_malloc s sz = (NULL, s)) \<and>
   (1 \<le> unat sz \<and> unat sz \<le> 15 \<and>
      cls = PAGE_SMALL \<and> segments = SMALL_SEGMENTS \<and> slot = ALIGNED_BLOCK_SMALL \<or>
    16 \<le> unat sz \<and> unat sz \<le> 180 \<and>
      cls = PAGE_BIG \<and> segments = BIG_SEGMENTS \<and> slot = ALIGNED_BLOCK_BIG \<longrightarrow>
      (p < PAGE_COUNT \<and> has_room cls segments s p \<and> (\<forall>q<p. \<not> has_room cls segments s q) \<and>
       k < segments \<and> \<not> seg_bit (heap s) (page_header_addr p) k \<and>
       (\<forall>j<k. seg_bit (heap s) (page_header_addr p) j) \<longrightarrow>
         custom_malloc s sz =
           (Ptr (int (page_data_addr p + k * slot)),
            mark_slot s p k
              \<lparr>used_segments = used_segments (page_table s p) + 1, type = cls\<rparr>)) \<and>
      ((\<forall>q<PAGE_COUNT. \<not> has_room cls segments s q) \<and>
       p < PAGE_COUNT \<and> type (page_table s p) = PAGE_FREE \<and>
       (\<forall>q<p. type (page_table s q) \<noteq> PAGE_FREE) \<longrightarrow>
         custom_malloc s sz =
           (Ptr (int (page_data_addr p)),
            mark_slot s p 0 \<lparr>used_segments = 1, type = cls\<rparr>)) \<and>
      ((\<forall>q<PAGE_COUNT. \<not> has_room cls segments s q \<and> type (page_table s q) \<noteq> PAGE_FREE) \<longrightarrow>
         custom_malloc s sz = (NULL, s))) \<and>
   ((\<exists>p k. p < PAGE_COUNT \<and> has_room cls segments s p \<and> (\<forall>q<p. \<not> has_room cls segments s q) \<and>
           k < segments \<and> \<not> seg_bit (heap s) (page_header_addr p) k \<and>
           (\<forall>j<k. seg_bit (heap s) (page_header_addr p) j)) \<or>
    ((\<forall>q<PAGE_COUNT. \<not> has_room cls segments s q) \<and>
     (\<exists>p. p < PAGE_COUNT \<and> type (page_table s p) = PAGE_FREE \<and>
          (\<forall>q<p. type (page_table s q) \<noteq> PAGE_FREE))) \<or>
    (\<forall>q<PAGE_COUNT. \<not> has_room cls segments s q \<and> type (page_table s q) \<noteq> PAGE_FREE))"
proof (intro conjI impI)
  assume "sz = 0"
  then show "custom_malloc s sz = (NULL, s)" by (simp add: custom_malloc_def)
next
  assume "180 < unat sz"
  then show "custom_malloc s sz = (NULL, s)"
    by (auto simp add: custom_malloc_def BLOCK_SMALL_def BLOCK_BIG_def)
next
  assume c: "1 \<le> unat sz \<and> unat sz \<le> 15 \<and>
      cls = PAGE_SMALL \<and> segments = SMALL_SEGMENTS \<and> slot = ALIGNED_BLOCK_SMALL \<or>
    16 \<le> unat sz \<and> unat sz \<le> 180 \<and>
      cls = PAGE_BIG \<and> segments = BIG_SEGMENTS \<and> slot = ALIGNED_BLOCK_BIG"
  define page_set where "page_set = (if cls = PAGE_SMALL then page_set_small else page_set_big)"
  have seg: "segments < 65535" using c by (auto simp: segments_cases)
  have cm: "custom_malloc s sz =
     (case alloc_scan cls segments slot s 0 of
        Some r \<Rightarrow> r
      | None \<Rightarrow> (case alloc_fresh page_set s 0 of Some r \<Rightarrow> r | None \<Rightarrow> (NULL, s)))"
    using c by (intro custom_malloc_class) (auto simp: page_set_def)
  have op: "open_page page_set s q = mark_slot s q 0 \<lparr>used_segments = 1, type = cls\<rparr>" for q
    using c by (auto simp: page_set_def open_page_mark_slot)
  {
    assume "p < PAGE_COUNT \<and> has_room cls segments s p \<and> (\<forall>q<p. \<not> has_room cls segments s q) \<and>
       k < segments \<and> \<not> seg_bit (heap s) (page_header_addr p) k \<and>
       (\<forall>j<k. seg_bit (heap s) (page_header_addr p) j)"
    then have "alloc_scan cls segments slot s 0 =
         Some (Ptr (int (page_data_addr p + k * slot)),
               mark_slot s p k \<lparr>used_segments = used_segments (page_table s p) + 1, type = cls\<rparr>)"
      by (intro alloc_class_partial [OF seg]) simp_all
    then show "custom_malloc s sz =
           (Ptr (int (page_data_addr p + k * slot)),
            mark_slot s p k
              \<lparr>used_segments = used_segments (page_table s p) + 1, type = cls\<rparr>)"
      unfolding cm by simp
  }
  {
    assume h: "(\<forall>q<PAGE_COUNT. \<not> has_room cls segments s q) \<and>
       p < PAGE_COUNT \<and> type (page_table s p) = PAGE_FREE \<and>
       (\<forall>q<p. type (page_table s q) \<noteq> PAGE_FREE)"
    then have "alloc_scan cls segments slot s 0 = None"
      by (intro alloc_class_no_room [OF seg]) simp
    moreover have "alloc_fresh page_set s 0 = Some (Ptr (int (page_data_addr p)), open_page page_set s p)"
      using h by (intro alloc_fresh_first) simp_all
    ultimately show "custom_malloc s sz =
           (Ptr (int (page_data_addr p)), mark_slot s p 0 \<lparr>used_segments = 1, type = cls\<rparr>)"
      unfolding cm by (simp add: op)
  }
  {
    assume h: "\<forall>q<PAGE_COUNT. \<not> has_room cls segments s q \<and> type (page_table s q) \<noteq> PAGE_FREE"
    then have "alloc_scan cls segments slot s 0 = None"
      by (intro alloc_class_no_room [OF seg]) simp
    moreover have "alloc_fresh page_set s 0 = None"
      using h by (intro alloc_fresh_None) simp
    ultimately show "custom_malloc s sz = (NULL, s)" unfolding cm by simp
  }
next
  show "(\<exists>p k. p < PAGE_COUNT \<and> has_room cls segments s p \<and> (\<forall>q<p. \<not> has_room cls segments s q) \<and>
           k < segments \<and> \<not> seg_bit (heap s) (page_header_addr p) k \<and>
           (\<forall>j<k. seg_bit (heap s) (page_header_addr p) j)) \<or>
    ((\<forall>q<PAGE_COUNT. \<not> has_room cls segments s q) \<and>
     (\<exists>p. p < PAGE_COUNT \<and> type (page_table s p) = PAGE_FREE \<and>
          (\<forall>q<p. type (page_table s q) \<noteq> PAGE_FREE))) \<or>
    (\<forall>q<PAGE_COUNT. \<not> has_room cls segments s q \<and> type (page_table s q) \<noteq> PAGE_FREE)"
    by (rule alloc_cases_exhaustive)
qed

text \<open>
  Instances of the theorem above, on the state after \<^verbatim>\<open>alloc_init()\<close> and on a state
  where no page is FREE: the first SMALL and the first BIG request open page 0, a second
  SMALL request takes slot 1 of page 0, and with no page to serve from the result is
  \<^verbatim>\<open>NULL\<close>.
\<close>

theorem custom_malloc_size_classes_witness:
  "custom_malloc (alloc_init garbage) 0 = (NULL, alloc_init garbage) \<and>
   custom_malloc (alloc_init garbage) 181 = (NULL, alloc_init garbage) \<and>
   custom_malloc (alloc_init garbage) 1 =
     (Ptr 16, mark_slot (alloc_init garbage) 0 0 \<lparr>used_segments = 1, type = PAGE_SMALL\<rparr>) \<and>
   custom_malloc (alloc_init garbage) 180 =
     (Ptr 16, mark_slot (alloc_init garbage) 0 0 \<lparr>used_segments = 1, type = PAGE_BIG\<rparr>) \<and>
   custom_malloc
     (mark_slot (alloc_init garbage) 0 0 \<lparr>used_segments = 1, type = PAGE_SMALL\<rparr>) 15 =
     (Ptr 32,
      mark_slot (mark_slot (alloc_init garbage) 0 0 \<lparr>used_segments = 1, type = PAGE_SMALL\<rparr>)
        0 1 \<lparr>used_segments = 2, type = PAGE_SMALL\<rparr>) \<and>
   custom_malloc garbage 1 = (NULL, garbage) \<and>
   custom_malloc garbage 16 = (NULL, garbage)"
proof -
  define s0 where "s0 = alloc_init garbage"
  define s1 where "s1 = mark_slot s0 0 0 \<lparr>used_segments = 1, type = PAGE_SMALL\<rparr>"
  have z: "custom_malloc s0 0 = (NULL, s0)"
    using custom_malloc_size_classes [of 0 s0] by simp
  have h: "custom_malloc s0 181 = (NULL, s0)"
    using custom_malloc_size_classes [of 181 s0] by simp
  have free0: "type (page_table s0 0) = PAGE_FREE" "0 < PAGE_COUNT"
    by (simp_all add: s0_def alloc_init_page_table segments_cases)
  have a1: "custom_malloc s0 1 = (Ptr 16, mark_slot s0 0 0 \<lparr>used_segments = 1, type = PAGE_SMALL\<rparr>)"
    using custom_malloc_size_classes [where sz = 1 and s = s0 and cls = PAGE_SMALL
        and segments = SMALL_SEGMENTS
        and slot = ALIGNED_BLOCK_SMALL and p = 0,
        THEN conjunct2, THEN conjunct2, THEN conjunct1, THEN mp, THEN conjunct2, THEN conjunct1] free0
    by (simp add: s0_def has_room_init data_addr)
  have a2: "custom_malloc s0 180 = (Ptr 16, mark_slot s0 0 0 \<lparr>used_segments = 1, type = PAGE_BIG\<rparr>)"
    using custom_malloc_size_classes [where sz = 180 and s = s0 and cls = PAGE_BIG
        and segments = BIG_SEGMENTS
        and slot = ALIGNED_BLOCK_BIG and p = 0,
        THEN conjunct2, THEN conjunct2, THEN conjunct1, THEN mp, THEN conjunct2, THEN conjunct1] free0
    by (simp add: s0_def has_room_init data_addr)
  have hz: "heap s0 (page_header_addr 0) = 0"
    using alloc_init_header [of 0 0 garbage] by (simp add: s0_def segments_cases)
  have bits: "seg_bit (heap s1) (page_header_addr 0) 0" "\<not> seg_bit (heap s1) (page_header_addr 0) 1"
    unfolding s1_def using seg_bit_mark_slot_first [OF hz] by simp_all
  have pt1: "page_table s1 0 = \<lparr>used_segments = 1, type = PAGE_SMALL\<rparr>"
    by (simp add: s1_def mark_slot_def)
  have room: "has_room PAGE_SMALL SMALL_SEGMENTS s1 0"
    unfolding has_room_def using bits(2) by (auto simp: pt1 segments_cases intro!: bexI [of _ 1])
  have a3: "custom_malloc s1 15 = (Ptr 32, mark_slot s1 0 1 \<lparr>used_segments = 2, type = PAGE_SMALL\<rparr>)"
    using custom_malloc_size_classes [where sz = 15 and s = s1 and cls = PAGE_SMALL
        and segments = SMALL_SEGMENTS
        and slot = ALIGNED_BLOCK_SMALL and p = 0 and k = 1,
        THEN conjunct2, THEN conjunct2, THEN conjunct1, THEN mp, THEN conjunct1] room bits free0(2)
    by (simp add: pt1 data_addr segments_cases ALIGNED_BLOCK_SMALL_def)
  have n1: "custom_malloc garbage 1 = (NULL, garbage)"
    using custom_malloc_size_classes [where sz = 1 and s = garbage and cls = PAGE_SMALL
        and segments = SMALL_SEGMENTS
        and slot = ALIGNED_BLOCK_SMALL,
        THEN conjunct2, THEN conjunct2, THEN conjunct1, THEN mp, THEN conjunct2, THEN conjunct2]
    by (simp add: has_room_garbage)
  have n2: "custom_malloc garbage 16 = (NULL, garbage)"
    using custom_malloc_size_classes [where sz = 16 and s = garbage and cls = PAGE_BIG
        and segments = BIG_SEGMENTS
        and slot = ALIGNED_BLOCK_BIG,
        THEN conjunct2, THEN conjunct2, THEN conjunct1, THEN mp, THEN conjunct2, THEN conjunct2]
    by (simp add: has_room_garbage)
  show ?thesis using z h a1 a2 a3 n1 n2 unfolding s1_def s0_def by (intro conjI)
qed

text \<open>
  \<^bold>\<open>Claim C7.\<close> In every state (reachable or not), \<^verbatim>\<open>custom_free\<close> returns the whole
  state (page table and heap bytes) unchanged when the pointer is \<^verbatim>\<open>NULL\<close>, lies outside
  the heap, lies in a FREE page, is not at a multiple of the slot size of its page's
  class from the page's data area, or is the start of a slot whose bit is clear; and a
  second release of the same pointer changes nothing after the first. The model of
  \<^verbatim>\<open>custom_free\<close> has no other result than the state: no error is signalled.
\<close>

theorem custom_free_noop_cases:
  "custom_free s NULL = s \<and>
   (a < 0 \<or> int HEAP_SIZE \<le> a \<longrightarrow> custom_free s (Ptr a) = s) \<and>
   (0 \<le> a \<and> a < int HEAP_SIZE \<and> type (page_table s (page_of a)) = PAGE_FREE \<longrightarrow>
      custom_free s (Ptr a) = s) \<and>
   (0 \<le> a \<and> a < int HEAP_SIZE \<and> type (page_table s (page_of a)) = PAGE_SMALL \<and>
      (a - int (page_data_addr (page_of a))) mod int ALIGNED_BLOCK_SMALL \<noteq> 0 \<longrightarrow>
      custom_free s (Ptr a) = s) \<and>
   (0 \<le> a \<and> a < int HEAP_SIZE \<and> type (page_table s (page_of a)) = PAGE_BIG \<and>
      (a - int (page_data_addr (page_of a))) mod int ALIGNED_BLOCK_BIG \<noteq> 0 \<longrightarrow>
      custom_free s (Ptr a) = s) \<and>
   (p < PAGE_COUNT \<and> k < SMALL_SEGMENTS \<and> type (page_table s p) = PAGE_SMALL \<and>
      \<not> seg_bit (heap s) (page_header_addr p) k \<longrightarrow>
      custom_free s (Ptr (int (page_data_addr p + k * ALIGNED_BLOCK_SMALL))) = s) \<and>
   (p < PAGE_COUNT \<and> k < BIG_SEGMENTS \<and> type (page_table s p) = PAGE_BIG \<and>
      \<not> seg_bit (heap s) (page_header_addr p) k \<longrightarrow>
      custom_free s (Ptr (int (page_data_addr p + k * ALIGNED_BLOCK_BIG))) = s) \<and>
   custom_free (custom_free s ptr) ptr = custom_free s ptr"
proof (intro conjI impI)
  show "custom_free s NULL = s" by (simp add: custom_free_def)
next
  assume "a < 0 \<or> int HEAP_SIZE \<le> a"
  then show "custom_free s (Ptr a) = s" by (auto simp add: custom_free_def)
next
  assume "0 \<le> a \<and> a < int HEAP_SIZE \<and> type (page_table s (page_of a)) = PAGE_FREE"
  then show "custom_free s (Ptr a) = s" by (simp add: custom_free_in_heap)
next
  assume h: "0 \<le> a \<and> a < int HEAP_SIZE \<and> type (page_table s (page_of a)) = PAGE_SMALL \<and>
      (a - int (page_data_addr (page_of a))) mod int ALIGNED_BLOCK_SMALL \<noteq> 0"
  then have "free_in_page s a (page_of a) SMALL_SEGMENTS ALIGNED_BLOCK_SMALL = s"
    by (intro free_in_page_misaligned) simp_all
  with h show "custom_free s (Ptr a) = s" by (simp add: custom_free_in_heap)
next
  assume h: "0 \<le> a \<and> a < int HEAP_SIZE \<and> type (page_table s (page_of a)) = PAGE_BIG \<and>
      (a - int (page_data_addr (page_of a))) mod int ALIGNED_BLOCK_BIG \<noteq> 0"
  then have "free_in_page s a (page_of a) BIG_SEGMENTS ALIGNED_BLOCK_BIG = s"
    by (intro free_in_page_misaligned) simp_all
  with h show "custom_free s (Ptr a) = s" by (simp add: custom_free_in_heap)
next
  assume h: "p < PAGE_COUNT \<and> k < SMALL_SEGMENTS \<and> type (page_table s p) = PAGE_SMALL \<and>
      \<not> seg_bit (heap s) (page_header_addr p) k"
  then show "custom_free s (Ptr (int (page_data_addr p + k * ALIGNED_BLOCK_SMALL))) = s"
    by (intro custom_free_slot_clear[where k = k and p = p and segments = SMALL_SEGMENTS
          and slot = ALIGNED_BLOCK_SMALL]) simp_all
next
  assume h: "p < PAGE_COUNT \<and> k < BIG_SEGMENTS \<and> type (page_table s p) = PAGE_BIG \<and>
      \<not> seg_bit (heap s) (page_header_addr p) k"
  then show "custom_free s (Ptr (int (page_data_addr p + k * ALIGNED_BLOCK_BIG))) = s"
    by (intro custom_free_slot_clear[where k = k and p = p and segments = BIG_SEGMENTS
          and slot = ALIGNED_BLOCK_BIG]) simp_all
next
  show "custom_free (custom_free s ptr) ptr = custom_free s ptr" by (rule custom_free_idem)
qed

text \<open>An instance of the theorem above, with its hypotheses discharged.\<close>

theorem custom_free_noop_cases_witness:
  "custom_free (open_page page_set_small (alloc_init garbage) 0) NULL =
     open_page page_set_small (alloc_init garbage) 0 \<and>
   custom_free (open_page page_set_small (alloc_init garbage) 0) (Ptr (- 1)) =
     open_page page_set_small (alloc_init garbage) 0 \<and>
   custom_free (open_page page_set_small (alloc_init garbage) 0) (Ptr 65536) =
     open_page page_set_small (alloc_init garbage) 0 \<and>
   type (page_table (open_page page_set_small (alloc_init garbage) 0) (page_of 1040)) = PAGE_FREE \<and>
   custom_free (open_page page_set_small (alloc_init garbage) 0) (Ptr 1040) =
     open_page page_set_small (alloc_init garbage) 0 \<and>
   type (page_table (open_page page_set_small (alloc_init garbage) 0) (page_of 17)) = PAGE_SMALL \<and>
   (17 - int (page_data_addr (page_of 17))) mod int ALIGNED_BLOCK_SMALL \<noteq> 0 \<and>
   custom_free (open_page page_set_small (alloc_init garbage) 0) (Ptr 17) =
     open_page page_set_small (alloc_init garbage) 0 \<and>
   type (page_table (open_page page_set_big (alloc_init garbage) 0) (page_of 17)) = PAGE_BIG \<and>
   (17 - int (page_data_addr (page_of 17))) mod int ALIGNED_BLOCK_BIG \<noteq> 0 \<and>
   custom_free (open_page page_set_big (alloc_init garbage) 0) (Ptr 17) =
     open_page page_set_big (alloc_init garbage) 0 \<and>
   \<not> seg_bit (heap (open_page page_set_small (alloc_init garbage) 0)) (page_header_addr 0) 1 \<and>
   custom_free (open_page page_set_small (alloc_init garbage) 0)
       (Ptr (int (page_data_addr 0 + 1 * ALIGNED_BLOCK_SMALL))) =
     open_page page_set_small (alloc_init garbage) 0 \<and>
   \<not> seg_bit (heap (open_page page_set_big (alloc_init garbage) 0)) (page_header_addr 0) 1 \<and>
   custom_free (open_page page_set_big (alloc_init garbage) 0)
       (Ptr (int (page_data_addr 0 + 1 * ALIGNED_BLOCK_BIG))) =
     open_page page_set_big (alloc_init garbage) 0 \<and>
   custom_free (custom_free (open_page page_set_small (alloc_init garbage) 0) (Ptr 16)) (Ptr 16) =
     custom_free (open_page page_set_small (alloc_init garbage) 0) (Ptr 16)"
proof -
  let ?S = "open_page page_set_small (alloc_init garbage) 0"
  let ?B = "open_page page_set_big (alloc_init garbage) 0"
  have pg: "page_of 1040 = 1" "page_of 17 = 0" by (simp_all add: page_of_eq)
  have pc: "(0::nat) < PAGE_COUNT" "(1::nat) < PAGE_COUNT" by (simp_all add: segments_cases)
  have "page_table (alloc_init garbage) (Suc 0) = \<lparr>used_segments = 0, type = PAGE_FREE\<rparr>"
    by (rule alloc_init_page_table) (simp add: segments_cases)
  then have t1: "type (page_table ?S (page_of 1040)) = PAGE_FREE"
    by (simp add: pg)
  have t2: "type (page_table ?S (page_of 17)) = PAGE_SMALL" "type (page_table ?S 0) = PAGE_SMALL"
    by (simp_all add: pg)
  have t3: "type (page_table ?B (page_of 17)) = PAGE_BIG" "type (page_table ?B 0) = PAGE_BIG"
    by (simp_all add: pg)
  have m1: "(17 - int (page_data_addr (page_of 17))) mod int ALIGNED_BLOCK_SMALL \<noteq> 0"
    and m2: "(17 - int (page_data_addr (page_of 17))) mod int ALIGNED_BLOCK_BIG \<noteq> 0"
    by (simp_all add: pg data_addr alloc_consts)
  have b1: "\<not> seg_bit (heap ?S) (page_header_addr 0) 1"
    and b2: "\<not> seg_bit (heap ?B) (page_header_addr 0) 1"
    using alloc_init_seg_bit[OF pc(1), of 1 garbage]
    by (simp_all add: seg_bit_bitmap_set_same)
  have r: "(- 1 :: int) < 0 \<or> int HEAP_SIZE \<le> - 1" "(65536 :: int) < 0 \<or> int HEAP_SIZE \<le> 65536"
    "(0::int) \<le> 1040 \<and> 1040 < int HEAP_SIZE" "(0::int) \<le> 17 \<and> 17 < int HEAP_SIZE"
    "(1::nat) < SMALL_SEGMENTS" "(1::nat) < BIG_SEGMENTS"
    by (simp_all add: alloc_consts)
  note T = custom_free_noop_cases
  have c1: "custom_free ?S NULL = ?S" using T[of ?S] by blast
  have c2: "custom_free ?S (Ptr (- 1)) = ?S" using T[of ?S "- 1"] r(1) by blast
  have c3: "custom_free ?S (Ptr 65536) = ?S" using T[of ?S 65536] r(2) by blast
  have c4: "custom_free ?S (Ptr 1040) = ?S" using T[of ?S 1040] r(3) t1 by blast
  have c5: "custom_free ?S (Ptr 17) = ?S" using T[of ?S 17] r(4) t2(1) m1 by blast
  have c6: "custom_free ?B (Ptr 17) = ?B" using T[of ?B 17] r(4) t3(1) m2 by blast
  have c7: "custom_free ?S (Ptr (int (page_data_addr 0 + 1 * ALIGNED_BLOCK_SMALL))) = ?S"
    using T[of ?S _ 0 1] pc(1) r(5) t2(2) b1 by blast
  have c8: "custom_free ?B (Ptr (int (page_data_addr 0 + 1 * ALIGNED_BLOCK_BIG))) = ?B"
    using T[of ?B _ 0 1] pc(1) r(6) t3(2) b2 by blast
  have c9: "custom_free (custom_free ?S (Ptr 16)) (Ptr 16) = custom_free ?S (Ptr 16)"
    using T[of ?S _ _ _ "Ptr 16"] by blast
  from c1 c2 c3 t1 c4 t2(1) m1 c5 t3(1) m2 c6 b1 c7 b2 c8 c9 show ?thesis
    by (intro conjI)
qed


text \<open>
  \<^bold>\<open>Claim C9.\<close> For a pointer into the 16 header bytes of a SMALL or BIG page,
  \<^verbatim>\<open>custom_free\<close> leaves the state unchanged: the \<^verbatim>\<open>size_t\<close> value
  \<^verbatim>\<open>offset_in_page\<close> wraps around to at least \<open>2\<^sup>6\<^sup>4 - 16\<close>, and the call returns at
  the divisibility check or at the check \<^verbatim>\<open>bit_index >= N_SEGMENTS\<close>.
\<close>

theorem free_header_pointer_noop:
  assumes "0 \<le> a" and "a < int HEAP_SIZE"
    and "a - int (page_base_addr (page_of a)) < int PAGE_HEADER_SIZE"
    and "type (page_table s (page_of a)) = PAGE_SMALL \<or> type (page_table s (page_of a)) = PAGE_BIG"
  shows "custom_free s (Ptr a) = s \<and>
         unat (word_of_int (a - int (page_data_addr (page_of a))) :: size_t) \<ge> 2 ^ 64 - 16 \<and>
         (type (page_table s (page_of a)) = PAGE_SMALL \<longrightarrow>
            (word_of_int (a - int (page_data_addr (page_of a))) :: size_t)
               mod of_nat ALIGNED_BLOCK_SMALL \<noteq> 0 \<or>
            (word_of_int (a - int (page_data_addr (page_of a))) :: size_t)
               div of_nat ALIGNED_BLOCK_SMALL \<ge> of_nat SMALL_SEGMENTS) \<and>
         (type (page_table s (page_of a)) = PAGE_BIG \<longrightarrow>
            (word_of_int (a - int (page_data_addr (page_of a))) :: size_t)
               mod of_nat ALIGNED_BLOCK_BIG \<noteq> 0 \<or>
            (word_of_int (a - int (page_data_addr (page_of a))) :: size_t)
               div of_nat ALIGNED_BLOCK_BIG \<ge> of_nat BIG_SEGMENTS)"
proof -
  define p where "p = page_of a"
  define h where "h = nat (a - int (page_header_addr p))"
  have lo: "int (page_header_addr p) \<le> a" unfolding p_def by (rule page_of_bounds(1)[OF assms(1)])
  from assms(3) have hi: "a < int (page_data_addr p)"
    by (simp add: p_def page_data_addr_def)
  from lo hi have h: "h < 16" and d: "a - int (page_data_addr p) = int h - 16"
    by (simp_all add: h_def hdr_addr data_addr)
  have c: "(of_nat ALIGNED_BLOCK_SMALL :: size_t) = 16" "(of_nat SMALL_SEGMENTS :: size_t) = 63"
    "(of_nat ALIGNED_BLOCK_BIG :: size_t) = 192" "(of_nat BIG_SEGMENTS :: size_t) = 5"
    by (simp_all add: alloc_consts)
  have fs: "free_in_page s a p SMALL_SEGMENTS ALIGNED_BLOCK_SMALL = s"
    and fb: "free_in_page s a p BIG_SEGMENTS ALIGNED_BLOCK_BIG = s"
    using hi lo by (simp_all add: free_in_page_header)
  have A: "custom_free s (Ptr a) = s"
    by (simp add: custom_free_in_heap[OF assms(1,2), folded p_def] fs fb)
  have "unat (word_of_int (int h - 16) :: size_t) = 2 ^ 64 - 16 + h"
    by (rule header_offset_huge[OF h])
  then have B: "unat (word_of_int (a - int (page_data_addr p)) :: size_t) \<ge> 2 ^ 64 - 16"
    unfolding d by simp
  have C: "(word_of_int (a - int (page_data_addr p)) :: size_t) mod of_nat ALIGNED_BLOCK_SMALL \<noteq> 0 \<or>
           (word_of_int (a - int (page_data_addr p)) :: size_t) div of_nat ALIGNED_BLOCK_SMALL
             \<ge> of_nat SMALL_SEGMENTS"
    unfolding d c by (rule header_offset_small[OF h])
  have D: "(word_of_int (a - int (page_data_addr p)) :: size_t) mod of_nat ALIGNED_BLOCK_BIG \<noteq> 0"
    unfolding d c by (rule header_offset_big[OF h])
  show ?thesis unfolding p_def[symmetric] using A B C D by blast
qed

text \<open>An instance of the theorem above, with its hypotheses discharged.\<close>

theorem free_header_pointer_noop_witness:
  "(0::int) \<le> 7 \<and> (7::int) < int HEAP_SIZE \<and>
   7 - int (page_base_addr (page_of 7)) < int PAGE_HEADER_SIZE \<and>
   type (page_table (open_page page_set_small (alloc_init garbage) 0) (page_of 7)) = PAGE_SMALL \<and>
   custom_free (open_page page_set_small (alloc_init garbage) 0) (Ptr 7) =
     open_page page_set_small (alloc_init garbage) 0 \<and>
   (0::int) \<le> 0 \<and> (0::int) < int HEAP_SIZE \<and>
   0 - int (page_base_addr (page_of 0)) < int PAGE_HEADER_SIZE \<and>
   type (page_table (open_page page_set_big (alloc_init garbage) 0) (page_of 0)) = PAGE_BIG \<and>
   custom_free (open_page page_set_big (alloc_init garbage) 0) (Ptr 0) =
     open_page page_set_big (alloc_init garbage) 0"
proof -
  have p7: "page_of 7 = 0" "page_of 0 = 0" by (simp_all add: page_of_eq)
  have b0: "page_base_addr 0 = 0" by (simp add: page_base_addr_def)
  have h: "(0::int) \<le> 7" "(7::int) < int HEAP_SIZE" "(0::int) \<le> 0" "(0::int) < int HEAP_SIZE"
    "7 - int (page_base_addr (page_of 7)) < int PAGE_HEADER_SIZE"
    "0 - int (page_base_addr (page_of 0)) < int PAGE_HEADER_SIZE"
    by (simp_all add: HEAP_SIZE_def PAGE_HEADER_SIZE_def p7 b0)
  have ts: "type (page_table (open_page page_set_small (alloc_init garbage) 0) (page_of 7)) = PAGE_SMALL"
    and tb: "type (page_table (open_page page_set_big (alloc_init garbage) 0) (page_of 0)) = PAGE_BIG"
    by (simp_all add: p7)
  note w1 = free_header_pointer_noop[OF h(1,2,5) disjI1[OF ts], THEN conjunct1]
  note w2 = free_header_pointer_noop[OF h(3,4,6) disjI2[OF tb], THEN conjunct1]
  from h ts tb w1 w2 show ?thesis by (intro conjI)
qed

text \<open>
  \<^bold>\<open>Claim C6.\<close> After \<^verbatim>\<open>alloc_init()\<close>, in a sequence of 4033 requests of small sizes
  (1 to 15 bytes each) with no release, each of the first \<open>4032 = 63 * 64\<close> calls returns
  a pointer (call \<open>i\<close>, counted from 0, returns slot \<open>i mod 63\<close> of page \<open>i div 63\<close>),
  and the 4033rd call returns \<^verbatim>\<open>NULL\<close>.
\<close>

theorem small_capacity:
  assumes "length szs = 4033" and "\<forall>sz \<in> set szs. 1 \<le> unat sz \<and> unat sz \<le> 15"
  shows "(\<forall>i<4032. fst (alloc_many szs (alloc_init s)) ! i = Ptr (slot_addr i) \<and>
                    fst (alloc_many szs (alloc_init s)) ! i \<noteq> NULL) \<and>
         fst (alloc_many szs (alloc_init s)) ! 4032 = NULL"
proof -
  define xs where "xs = take 4032 szs"
  define y where "y = szs ! 4032"
  have szs: "szs = xs @ [y]" and lx: "length xs = 4032"
    using assms(1) by (simp_all add: xs_def y_def take_Suc_conv_app_nth[symmetric])
  have small: "\<forall>sz \<in> set xs. 1 \<le> unat sz \<and> unat sz \<le> 15" "1 \<le> unat y \<and> unat y \<le> 15"
    using assms(2) unfolding szs by simp_all
  from alloc_many_filled[OF filled_init small(1), of s] lx
  have ps: "fst (alloc_many xs (alloc_init s)) = map (\<lambda>i. Ptr (slot_addr i)) [0..<4032]"
    and full: "filled 4032 (snd (alloc_many xs (alloc_init s)))"
    by simp_all
  have "custom_malloc (snd (alloc_many xs (alloc_init s))) y =
        (NULL, snd (alloc_many xs (alloc_init s)))"
    using small(2) by (simp add: custom_malloc_small filled_full[OF full])
  then have all: "fst (alloc_many szs (alloc_init s)) =
                  map (\<lambda>i. Ptr (slot_addr i)) [0..<4032] @ [NULL]"
    unfolding szs by (simp add: alloc_many_append split_beta Let_def ps)
  have "fst (alloc_many szs (alloc_init s)) ! i = Ptr (slot_addr i)" if "i < 4032" for i
    unfolding all using that by (simp add: nth_append)
  moreover have "fst (alloc_many szs (alloc_init s)) ! 4032 = NULL"
    unfolding all by (simp add: nth_append)
  ultimately show ?thesis by simp
qed

text \<open>An instance of the theorem above, with its hypotheses discharged.\<close>

theorem small_capacity_witness:
  "length (replicate 4033 (1 :: size_t)) = 4033 \<and>
   fst (alloc_many (replicate 4033 1) (alloc_init garbage)) ! 0 = Ptr 16 \<and>
   fst (alloc_many (replicate 4033 1) (alloc_init garbage)) ! 63 = Ptr 1040 \<and>
   fst (alloc_many (replicate 4033 1) (alloc_init garbage)) ! 4031 = Ptr 65520 \<and>
   fst (alloc_many (replicate 4033 1) (alloc_init garbage)) ! 4031 \<noteq> NULL \<and>
   fst (alloc_many (replicate 4033 1) (alloc_init garbage)) ! 4032 = NULL"
proof -
  have l: "length (replicate 4033 (1 :: size_t)) = 4033" by simp
  have h: "\<forall>sz \<in> set (replicate 4033 (1 :: size_t)). 1 \<le> unat sz \<and> unat sz \<le> 15" by simp
  note T = small_capacity[OF l h, of garbage]
  have a: "slot_addr 0 = 16" "slot_addr 63 = 1040" "slot_addr 4031 = 65520"
    by (simp_all add: slot_addr_def data_addr alloc_consts)
  from T have "fst (alloc_many (replicate 4033 1) (alloc_init garbage)) ! 0 = Ptr (slot_addr 0)"
    "fst (alloc_many (replicate 4033 1) (alloc_init garbage)) ! 63 = Ptr (slot_addr 63)"
    "fst (alloc_many (replicate 4033 1) (alloc_init garbage)) ! 4031 = Ptr (slot_addr 4031)"
    "fst (alloc_many (replicate 4033 1) (alloc_init garbage)) ! 4031 \<noteq> NULL"
    "fst (alloc_many (replicate 4033 1) (alloc_init garbage)) ! 4032 = NULL"
    by simp_all
  with l show ?thesis unfolding a by (intro conjI)
qed

section \<open>The drivers: helper lemmas\<close>

subsection \<open>Pages and chunks\<close>

lemma page_end: "a + (16 - a mod 16) = 16 * (a div 16 + 1)" for a :: nat
  by presburger

lemma page_start: "max a (16 * (a div 16)) = a" for a :: nat
  by presburger

lemma page_same:
  fixes a n :: nat
  assumes "0 < n" "n \<le> 16 - a mod 16"
  shows "(a + n - 1) div 16 = a div 16"
proof -
  define q r where "q = a div 16" and "r = a mod 16"
  have a: "a = r + q * 16" and r: "r < 16" by (simp_all add: q_def r_def)
  have "a + n - 1 = (r + n - 1) + q * 16" using assms a by simp
  moreover have "r + n - 1 < 16" using assms r unfolding r_def by linarith
  ultimately show ?thesis unfolding q_def [symmetric] by simp
qed

lemma page_min_inside:
  fixes a n :: nat
  assumes "n \<le> 16 - a mod 16"
  shows "min (a + n) (16 * (a div 16 + 1)) - a = n"
proof -
  have "a + n \<le> 16 * (a div 16 + 1)" using assms page_end [of a] by linarith
  then show ?thesis by (simp add: min_def)
qed

lemma page_min_across:
  fixes a n :: nat
  assumes "16 - a mod 16 < n"
  shows "min (a + n) (16 * (a div 16 + 1)) - a = 16 - a mod 16"
proof -
  have "16 * (a div 16 + 1) \<le> a + n" using assms page_end [of a] by linarith
  then have "min (a + n) (16 * (a div 16 + 1)) = a + (16 - a mod 16)"
    using page_end [of a] by (simp add: min_def)
  then show ?thesis by simp
qed

lemma spec_chunks_last:
  assumes "0 < n" "n \<le> 16 - a mod 16"
  shows "spec_chunks a n = [(a, 0, n)]"
proof -
  define g where
    "g = (\<lambda>p. let lo = max a (16 * p); hi = min (a + n) (16 * (p + 1)) in (lo, lo - a, hi - lo))"
  have g0: "g (a div 16) = (a, 0, n)"
    unfolding g_def Let_def page_start page_min_inside [OF assms(2)] by simp
  have n: "n \<noteq> 0" using assms(1) by simp
  have "spec_chunks a n = map g [a div 16 ..< a div 16 + 1]"
    unfolding spec_chunks_def g_def page_same [OF assms] using n by (simp only: if_False)
  also have "\<dots> = [g (a div 16)]" by simp
  finally show ?thesis unfolding g0 .
qed

lemma spec_chunks_rec:
  assumes "16 - a mod 16 < n" and c: "c = 16 - a mod 16"
  shows "spec_chunks a n =
         (a, 0, c) # map (\<lambda>(x, o', l). (x, o' + c, l)) (spec_chunks (a + c) (n - c))"
proof -
  have cn: "c < n" using assms by simp
  have n: "n \<noteq> 0" "n - c \<noteq> 0" using cn by simp_all
  have ac: "a + c = 16 * (a div 16 + 1)" unfolding c by (rule page_end)
  have lo: "(a + c) div 16 = a div 16 + 1" unfolding ac by simp
  have acn: "a + c + (n - c) = a + n" using cn by simp
  have "a div 16 \<le> (a + n - 1) div 16" by (rule div_le_mono) (use n in simp)
  then have lt: "a div 16 < (a + n - 1) div 16 + 1" by simp
  define g where
    "g = (\<lambda>p. let lo = max a (16 * p); hi = min (a + n) (16 * (p + 1)) in (lo, lo - a, hi - lo))"
  define g' where
    "g' = (\<lambda>p. let lo = max (a + c) (16 * p); hi = min (a + c + (n - c)) (16 * (p + 1))
              in (lo, lo - (a + c), hi - lo))"
  have g0: "g (a div 16) = (a, 0, c)"
    unfolding g_def Let_def page_start page_min_across [OF assms(1)] c by simp
  have tl: "map g [a div 16 + 1 ..< (a + n - 1) div 16 + 1]
            = map (\<lambda>(x, o', l). (x, o' + c, l)) (map g' [a div 16 + 1 ..< (a + n - 1) div 16 + 1])"
    unfolding map_map
  proof (rule map_cong [OF refl])
    fix p assume "p \<in> set [a div 16 + 1 ..< (a + n - 1) div 16 + 1]"
    then have p: "a div 16 + 1 \<le> p" by auto
    then have "a + c \<le> 16 * p" unfolding ac by simp
    then show "g p = ((\<lambda>(x, o', l). (x, o' + c, l)) \<circ> g') p"
      unfolding g_def g'_def acn by (simp add: Let_def max_def)
  qed
  have "spec_chunks a n = map g [a div 16 ..< (a + n - 1) div 16 + 1]"
    unfolding spec_chunks_def g_def using n(1) by (simp only: if_False)
  also have "\<dots> = g (a div 16) # map g [a div 16 + 1 ..< (a + n - 1) div 16 + 1]"
    unfolding upt_conv_Cons [OF lt] by simp
  finally have e: "spec_chunks a n = g (a div 16) # map g [a div 16 + 1 ..< (a + n - 1) div 16 + 1]" .
  have r: "map g' [a div 16 + 1 ..< (a + n - 1) div 16 + 1] = spec_chunks (a + c) (n - c)"
    unfolding spec_chunks_def [of "a + c"] g'_def lo acn using n(2) by (simp only: if_False)
  show ?thesis unfolding e g0 tl r ..
qed

lemma spec_chunks_step:
  assumes "0 < n" and c: "c = min (16 - a mod 16) n"
  shows "spec_chunks a n =
         (a, 0, c) # map (\<lambda>(x, o', l). (x, o' + c, l)) (spec_chunks (a + c) (n - c))"
proof (cases "n \<le> 16 - a mod 16")
  case True
  then have "c = n" using c by simp
  then show ?thesis using spec_chunks_last [OF assms(1) True] by (simp add: spec_chunks_def)
next
  case False
  then have "16 - a mod 16 < n" "c = 16 - a mod 16" using c by simp_all
  then show ?thesis by (rule spec_chunks_rec)
qed

subsection \<open>Words\<close>

lemma unat_page_offset: "unat (address mod EEPROM_PAGE_SIZE) = unat address mod 16"
  by (simp add: EEPROM_PAGE_SIZE_def unat_mod)

lemma unat_chunk:
  "unat (min (EEPROM_PAGE_SIZE - address mod EEPROM_PAGE_SIZE) len)
   = min (16 - unat address mod 16) (unat len)"
proof -
  have le: "address mod 16 \<le> 16" 
    by (simp add: word_le_nat_alt unat_mod)
  have s: "unat (16 - address mod 16) = 16 - unat address mod 16"
    using le by (simp add: unat_sub unat_mod)
  show ?thesis
    unfolding EEPROM_PAGE_SIZE_def min_def word_le_nat_alt by (simp add: s)
qed

lemma write_instruction:
  "(if drop_bit 8 address AND 0x01 \<noteq> 0 then EEPROM_WRITE OR 0x08 else EEPROM_WRITE)
   = (if unat address div 256 mod 2 = 1 then 0x0A else 0x02)" for address :: u16
proof -
  have "drop_bit 8 address AND 1 \<noteq> 0 \<longleftrightarrow> bit address 8"
    by (simp add: and_one_eq bit_iff_odd_drop_bit mod_2_eq_odd)
  also have "\<dots> \<longleftrightarrow> unat address div 256 mod 2 = 1"
    by (simp add: bit_iff_odd unat_div [symmetric] mod_2_eq_odd) (simp add: word_arith_nat_div)
  finally show ?thesis by (simp add: EEPROM_WRITE_def)
qed

lemma address_low_byte: "(ucast (address AND 0xFF) :: u8) = of_nat (unat address mod 256)" for address :: u16
proof -
  have m: "address AND 0xFF = take_bit 8 address"
    by (simp add: take_bit_eq_mask mask_eq_exp_minus_1)
  have "unat (ucast (take_bit 8 address) :: u8) = unat (of_nat (unat address mod 256) :: u8)"
    by (simp add: unsigned_ucast_eq unsigned_take_bit_eq take_bit_eq_mod unat_of_nat unat_mod)
  then show ?thesis unfolding m by (rule word_unat_eq_iff [THEN iffD2])
qed

lemma spec_chunks_nth:
  assumes "i < length (spec_chunks a n)"
  shows "spec_chunks a n ! i =
         (max a (16 * (a div 16 + i)), max a (16 * (a div 16 + i)) - a,
          min (a + n) (16 * (a div 16 + i + 1)) - max a (16 * (a div 16 + i)))"
proof -
  define g where
    "g = (\<lambda>p. let lo = max a (16 * p); hi = min (a + n) (16 * (p + 1)) in (lo, lo - a, hi - lo))"
  have n: "n \<noteq> 0" using assms by (auto simp: spec_chunks_def split: if_splits)
  have sc: "spec_chunks a n = map g [a div 16 ..< (a + n - 1) div 16 + 1]"
    unfolding spec_chunks_def g_def using n by (simp only: if_False)
  have l: "i < (a + n - 1) div 16 + 1 - a div 16"
    using assms unfolding sc by (simp only: length_map length_upt)
  then have u: "[a div 16 ..< (a + n - 1) div 16 + 1] ! i = a div 16 + i"
    by (intro nth_upt) linarith
  have "spec_chunks a n ! i = g (a div 16 + i)"
    unfolding sc using l u by (simp only: nth_map length_upt)
  then show ?thesis unfolding g_def Let_def .
qed

lemma spec_chunks_first:
  assumes "0 < n"
  shows "spec_chunks a n ! 0 = (a, 0, min (16 - a mod 16) n)"
  using spec_chunks_step [OF assms refl, of a] by simp

lemma spec_chunks_later:
  assumes "0 < i" "i < length (spec_chunks a n)"
  shows "fst (spec_chunks a n ! i) = 16 * (a div 16 + i)"
proof -
  have "a < 16 * (a div 16 + 1)" by presburger
  also have "\<dots> \<le> 16 * (a div 16 + i)" using assms(1) by simp
  finally have "max a (16 * (a div 16 + i)) = 16 * (a div 16 + i)" by simp
  then show ?thesis unfolding spec_chunks_nth [OF assms(2)] by simp
qed

lemma example_chunks: "spec_chunks 14 4 = [(14, 0, 2), (16, 2, 2)]"
  by (simp add: spec_chunks_def Let_def upt_conv_Cons)

lemma data_slice: "map (\<lambda>j. d (off + j)) [0..<n] = map d [off..<off + n]"
proof -
  have "map d [off..<off + n] = map d (map (\<lambda>j. j + off) [0..<n])"
    by (simp only: map_add_upt add.commute [of off n])
  then show ?thesis by (simp add: comp_def add.commute)
qed


subsection \<open>The driver's bus traffic in terms of the protocol\<close>

lemma exchange_append: "exchange dev log (xs @ ys) = exchange dev (exchange dev log xs) ys"
  by (induction xs arbitrary: log) simp_all

lemma select_bus: "select s = s\<lparr>bus := bus s @ [Select]\<rparr>"
  by (simp add: select_def)

lemma deselect_bus: "deselect s = s\<lparr>bus := bus s @ [Deselect]\<rparr>"
  by (simp add: deselect_def)

lemma transfer_bus:
  "snd (transfer dev s b) = s\<lparr>bus := exchange dev (bus s) [b]\<rparr>"
  "fst (transfer dev s b) = dev (bus s) b"
  by (simp_all add: transfer_def)

lemma eeprom_readStatus_spec:
  "eeprom_readStatus dev s = (spec_status dev (bus s), s\<lparr>bus := spec_read_status dev (bus s)\<rparr>)"
  by (simp add: eeprom_readStatus_def select_def deselect_def transfer_def spec_status_def
      spec_read_status_def spec_frame_def EEPROM_RDSR_def Let_def)

lemma fold_transfer_spec:
  "fold (\<lambda>j t. snd (transfer dev t (f j))) xs s = s\<lparr>bus := exchange dev (bus s) (map f xs)\<rparr>"
  by (induction xs arbitrary: s) (simp_all add: transfer_def)

lemma wren_frame_spec:
  "deselect (snd (transfer dev (select s) EEPROM_WREN)) = s\<lparr>bus := spec_frame dev (bus s) [0x06]\<rparr>"
  by (simp add: select_def deselect_def transfer_def spec_frame_def EEPROM_WREN_def)

lemma write_frame_spec:
  fixes address offset chunk :: u16
  shows "deselect (fold (\<lambda>j t. snd (transfer dev t (data (unat offset + j)))) [0..<unat chunk]
           (snd (transfer dev (buildAndSendInstruction dev (select s) EEPROM_WRITE address)
                  (ucast (address AND 0xFF)))))
         = s\<lparr>bus := spec_frame dev (bus s)
                      (write_frame (unat address)
                         (map data [unat offset ..< unat offset + unat chunk]))\<rparr>"
proof -
  define cmd :: u8 where "cmd = (if unat address div 256 mod 2 = 1 then 0x0A else 0x02)"
  define lo :: u8 where "lo = of_nat (unat address mod 256)"
  define bytes where "bytes = map data [unat offset ..< unat offset + unat chunk]"
  have s6: "buildAndSendInstruction dev (select s) EEPROM_WRITE address
            = s\<lparr>bus := exchange dev (bus s @ [Select]) [cmd]\<rparr>"
    unfolding buildAndSendInstruction_def Let_def write_instruction cmd_def [symmetric]
    by (simp add: transfer_def select_def)
  have s7: "snd (transfer dev (buildAndSendInstruction dev (select s) EEPROM_WRITE address)
                   (ucast (address AND 0xFF)))
            = s\<lparr>bus := exchange dev (bus s @ [Select]) [cmd, lo]\<rparr>"
    unfolding s6 address_low_byte lo_def [symmetric] by (simp add: transfer_def)
  have b: "map (\<lambda>j. data (unat offset + j)) [0..<unat chunk] = bytes"
    unfolding bytes_def by (rule data_slice)
  have "exchange dev (exchange dev (bus s @ [Select]) [cmd, lo]) bytes
        = exchange dev (bus s @ [Select]) (cmd # lo # bytes)"
    using exchange_append [of dev "bus s @ [Select]" "[cmd, lo]" bytes] by simp
  then show ?thesis
    unfolding s7 fold_transfer_spec b write_frame_def cmd_def [symmetric] lo_def [symmetric]
      bytes_def [symmetric] spec_frame_def
    by (simp add: deselect_def)
qed

lemma eeprom_wait_spec:
  "spec_poll dev (bus s) p = Some log' \<Longrightarrow> eeprom_wait dev s = Some (s\<lparr>bus := log'\<rparr>)"
proof (induction p arbitrary: s)
  case 0
  then show ?case
    by (subst eeprom_wait.simps)
      (simp add: eeprom_readStatus_spec EEPROM_WIP_def split: if_splits)
next
  case (Suc p)
  then have busy: "spec_status dev (bus s) AND 0x01 \<noteq> 0"
    and rest: "spec_poll dev (bus (s\<lparr>bus := spec_read_status dev (bus s)\<rparr>)) p = Some log'"
    by (simp_all split: if_splits)
  from Suc.IH [OF rest] busy show ?case
    by (subst eeprom_wait.simps) (simp add: eeprom_readStatus_spec EEPROM_WIP_def)
qed

lemma eeprom_wait_poll:
  assumes "eeprom_wait dev s = Some s'"
  shows "\<exists>p. spec_poll dev (bus s) p = Some (bus s') \<and> s' = s\<lparr>bus := bus s'\<rparr>"
proof (rule eeprom_wait.raw_induct [where P = "\<lambda>dev s s'.
   \<exists>p. spec_poll dev (bus s) p = Some (bus s') \<and> s' = s\<lparr>bus := bus s'\<rparr>", OF _ assms], goal_cases)
  case (1 f dev s s')
  define s1 where "s1 = s\<lparr>bus := spec_read_status dev (bus s)\<rparr>"
  show ?case
  proof (cases "spec_status dev (bus s) AND 0x01 \<noteq> 0")
    case True
    with 1(2) have "f dev s1 = Some s'"
      by (simp add: eeprom_readStatus_spec EEPROM_WIP_def s1_def)
    from 1(1) [OF this] obtain p where
      p: "spec_poll dev (bus s1) p = Some (bus s')" and e: "s' = s1\<lparr>bus := bus s'\<rparr>" by blast
    have "spec_poll dev (bus s) (Suc p) = Some (bus s')" using p True by (simp add: s1_def)
    moreover have "s' = s\<lparr>bus := bus s'\<rparr>" using e by (simp add: s1_def)
    ultimately show ?thesis by blast
  next
    case False
    with 1(2) have "s' = s1" by (simp add: eeprom_readStatus_spec EEPROM_WIP_def s1_def)
    then have "spec_poll dev (bus s) 0 = Some (bus s')" "s' = s\<lparr>bus := bus s'\<rparr>"
      using False by (simp_all add: s1_def)
    then show ?thesis by blast
  qed
qed

text \<open>One round of the loop of \<^verbatim>\<open>writeArray\<close>.\<close>

lemma eeprom_writeArray_loop_step:
  fixes address offset len :: u16 and dev :: device and s :: "eeprom_error chip"
  assumes "len \<noteq> 0"
  defines "c \<equiv> min (EEPROM_PAGE_SIZE - address mod EEPROM_PAGE_SIZE) len"
  defines "log1 \<equiv> spec_frame dev (bus s) [0x06]"
  shows "eeprom_writeArray_loop dev s address offset len data =
     (if spec_status dev log1 AND 0x02 = 0
      then Some (s\<lparr>bus := spec_read_status dev log1, errorCode := EEPROM_WRITE_NOT_ENABLED\<rparr>)
      else case eeprom_wait dev
                  (s\<lparr>bus := spec_frame dev (spec_read_status dev log1)
                               (write_frame (unat address)
                                  (map data [unat offset ..< unat offset + unat c]))\<rparr>) of
             None \<Rightarrow> None
           | Some s10 \<Rightarrow>
               eeprom_writeArray_loop dev s10 (address + c) (offset + c) (len - c) data)"
proof -
  have len: "0 < len" using assms(1) by (simp add: word_greater_zero_iff)
  show ?thesis
    unfolding eeprom_writeArray_loop.simps [of dev s address offset len data]
    unfolding c_def log1_def
    by (simp add: len Let_def wren_frame_spec eeprom_readStatus_spec write_frame_spec
        EEPROM_WEL_def)
qed


subsection \<open>The loop of \<^verbatim>\<open>writeArray\<close> and the protocol\<close>

lemma spec_writeArray_shift:
  "spec_writeArray dev (\<lambda>i. d (off + i)) log (map (\<lambda>(x, o', l). (x, o' + c, l)) cs) polls
   = spec_writeArray dev (\<lambda>i. d (off + c + i)) log cs polls"
proof (induction cs arbitrary: log polls)
  case Nil
  show ?case by simp
next
  case (Cons ch cs)
  obtain x o' l where ch: "ch = (x, o', l)" by (cases ch)
  have b: "map (\<lambda>i. d (off + i)) [o' + c ..< o' + c + l] = map (\<lambda>i. d (off + c + i)) [o' ..< o' + l]"
    unfolding data_slice [symmetric] by (simp add: ac_simps)
  show ?case
    unfolding ch by (simp add: b Cons.IH Let_def split: list.split option.split)
qed

lemma spec_writeArray_OK_length:
  "spec_writeArray dev d log cs polls = Some (log', EEPROM_OK) \<Longrightarrow> length polls = length cs"
proof (induction cs arbitrary: log polls)
  case Nil
  then show ?case by (simp split: if_splits)
next
  case (Cons ch cs)
  obtain x o' l where ch: "ch = (x, o', l)" by (cases ch)
  from Cons.prems show ?case
    unfolding ch
    by (auto simp: Let_def dest: Cons.IH split: if_splits list.splits option.splits)
qed

lemma spec_writeArray_append:
  "spec_writeArray dev d log xs polls = Some (log', EEPROM_OK) \<Longrightarrow>
   spec_writeArray dev d log (xs @ ys) (polls @ qs) = spec_writeArray dev d log' ys qs"
proof (induction xs arbitrary: log polls)
  case Nil
  then show ?case by (simp split: if_splits)
next
  case (Cons ch xs)
  obtain x o' l where ch: "ch = (x, o', l)" by (cases ch)
  from Cons.prems show ?case
    unfolding ch
    by (auto simp: Let_def dest: Cons.IH split: if_splits list.splits option.splits)
qed

lemma eeprom_writeArray_loop_sound:
  assumes "spec_writeArray dev (\<lambda>i. data (unat offset + i)) (bus s)
             (spec_chunks (unat address) (unat len)) polls = Some (log', e)"
    and "unat address + unat len \<le> 512"
    and "unat offset + unat len < 65536"
  shows "eeprom_writeArray_loop dev s address offset len data
         = Some (s\<lparr>bus := log', errorCode := e\<rparr>)"
  using assms
proof (induction "unat len" arbitrary: s address offset len polls rule: less_induct)
  case less
  show ?case
  proof (cases "len = 0")
    case True
    then have "log' = bus s" "e = EEPROM_OK"
      using less.prems(1) by (simp_all add: spec_chunks_def split: if_splits)
    then show ?thesis
      unfolding eeprom_writeArray_loop.simps [of dev s address offset len data]
      by (simp add: True)
  next
    case False
    then have len: "0 < unat len" by (simp add: unat_gt_0)
    define c where "c = min (EEPROM_PAGE_SIZE - address mod EEPROM_PAGE_SIZE) len"
    define a n cn where "a = unat address" and "n = unat len" and "cn = min (16 - a mod 16) n"
    have uc: "unat c = cn" unfolding c_def cn_def a_def n_def by (rule unat_chunk)
    have cn: "0 < cn" "cn \<le> n" using len by (simp_all add: cn_def n_def)
    have cs: "spec_chunks a n
              = (a, 0, cn) # map (\<lambda>(x, o', l). (x, o' + cn, l)) (spec_chunks (a + cn) (n - cn))"
      using len by (intro spec_chunks_step) (simp_all add: n_def cn_def)
    have cle: "c \<le> len" unfolding word_le_nat_alt uc using cn(2) by (simp add: n_def)
    have ul: "unat (len - c) = n - cn" using cle by (simp add: unat_sub uc n_def)
    have ua: "unat (address + c) = a + cn"
      using less.prems(2) cn(2) by (simp add: unat_add_lem [THEN iffD1] uc a_def n_def)
    have uo: "unat (offset + c) = unat offset + cn"
      using less.prems(3) cn(2) by (simp add: unat_add_lem [THEN iffD1] uc n_def)
    have m: "unat (len - c) < unat len" using cn len by (simp add: ul n_def)
    have r2: "unat (address + c) + unat (len - c) \<le> 512"
      using less.prems(2) cn(2) by (simp add: ua ul a_def n_def)
    have r3: "unat (offset + c) + unat (len - c) < 65536"
      using less.prems(3) cn(2) by (simp add: uo ul n_def)
    define log1 where "log1 = spec_frame dev (bus s) [0x06]"
    define log3 where "log3 = spec_frame dev (spec_read_status dev log1)
                               (write_frame a (map data [unat offset ..< unat offset + cn]))"
    have step: "eeprom_writeArray_loop dev s address offset len data =
       (if spec_status dev log1 AND 0x02 = 0
        then Some (s\<lparr>bus := spec_read_status dev log1, errorCode := EEPROM_WRITE_NOT_ENABLED\<rparr>)
        else case eeprom_wait dev (s\<lparr>bus := log3\<rparr>) of
               None \<Rightarrow> None
             | Some s10 \<Rightarrow>
                 eeprom_writeArray_loop dev s10 (address + c) (offset + c) (len - c) data)"
      unfolding log1_def log3_def c_def a_def uc [symmetric, unfolded c_def]
      by (rule eeprom_writeArray_loop_step [OF False])
    have spec: "spec_writeArray dev (\<lambda>i. data (unat offset + i)) (bus s)
                  ((a, 0, cn) # map (\<lambda>(x, o', l). (x, o' + cn, l)) (spec_chunks (a + cn) (n - cn)))
                  polls = Some (log', e)"
      using less.prems(1) unfolding a_def [symmetric] n_def [symmetric] cs .
    have bytes: "map (\<lambda>i. data (unat offset + i)) [0 ..< 0 + cn]
                 = map data [unat offset ..< unat offset + cn]"
      using data_slice [of data "unat offset" cn] by simp
    show ?thesis
    proof (cases "spec_status dev log1 AND 0x02 = 0")
      case True
      with spec have "log' = spec_read_status dev log1" "e = EEPROM_WRITE_NOT_ENABLED"
        by (simp_all add: Let_def log1_def [symmetric] split: if_splits)
      then show ?thesis unfolding step using True by simp
    next
      case wel: False
      from spec wel obtain p ps log'' where
        polls: "polls = p # ps" and poll: "spec_poll dev log3 p = Some log''"
        and rest: "spec_writeArray dev (\<lambda>i. data (unat offset + i)) log''
                     (map (\<lambda>(x, o', l). (x, o' + cn, l)) (spec_chunks (a + cn) (n - cn))) ps
                   = Some (log', e)"
        unfolding log3_def bytes [symmetric]
        by (auto simp: Let_def log1_def [symmetric] split: list.splits option.splits)
      have wt: "eeprom_wait dev (s\<lparr>bus := log3\<rparr>) = Some (s\<lparr>bus := log''\<rparr>)"
        using eeprom_wait_spec [of dev "s\<lparr>bus := log3\<rparr>" p log''] poll by simp
      have rest': "spec_writeArray dev (\<lambda>i. data (unat (offset + c) + i)) (bus (s\<lparr>bus := log''\<rparr>))
                     (spec_chunks (unat (address + c)) (unat (len - c))) ps = Some (log', e)"
        using rest unfolding spec_writeArray_shift ua ul uo by simp
      from less.hyps [OF m rest' r2 r3]
      have "eeprom_writeArray_loop dev (s\<lparr>bus := log''\<rparr>) (address + c) (offset + c) (len - c) data
            = Some (s\<lparr>bus := log', errorCode := e\<rparr>)" by simp
      then show ?thesis unfolding step using wel wt by simp
    qed
  qed
qed

lemma eeprom_writeArray_loop_complete:
  assumes "eeprom_writeArray_loop dev s address offset len data = Some s'"
    and "unat address + unat len \<le> 512"
    and "unat offset + unat len < 65536"
  shows "\<exists>polls. spec_writeArray dev (\<lambda>i. data (unat offset + i)) (bus s)
                   (spec_chunks (unat address) (unat len)) polls = Some (bus s', errorCode s')"
  using assms
proof (induction "unat len" arbitrary: s address offset len rule: less_induct)
  case less
  show ?case
  proof (cases "len = 0")
    case True
    have "s' = s\<lparr>errorCode := EEPROM_OK\<rparr>"
      using less.prems(1) unfolding eeprom_writeArray_loop.simps [of dev s address offset len data]
      by (simp add: True)
    then have "spec_writeArray dev (\<lambda>i. data (unat offset + i)) (bus s)
                 (spec_chunks (unat address) (unat len)) [] = Some (bus s', errorCode s')"
      by (simp add: True spec_chunks_def)
    then show ?thesis ..
  next
    case False
    then have len: "0 < unat len" by (simp add: unat_gt_0)
    define c where "c = min (EEPROM_PAGE_SIZE - address mod EEPROM_PAGE_SIZE) len"
    define a n cn where "a = unat address" and "n = unat len" and "cn = min (16 - a mod 16) n"
    have uc: "unat c = cn" unfolding c_def cn_def a_def n_def by (rule unat_chunk)
    have cn: "0 < cn" "cn \<le> n" using len by (simp_all add: cn_def n_def)
    have cs: "spec_chunks a n
              = (a, 0, cn) # map (\<lambda>(x, o', l). (x, o' + cn, l)) (spec_chunks (a + cn) (n - cn))"
      using len by (intro spec_chunks_step) (simp_all add: n_def cn_def)
    have cle: "c \<le> len" unfolding word_le_nat_alt uc using cn(2) by (simp add: n_def)
    have ul: "unat (len - c) = n - cn" using cle by (simp add: unat_sub uc n_def)
    have ua: "unat (address + c) = a + cn"
      using less.prems(2) cn(2) by (simp add: unat_add_lem [THEN iffD1] uc a_def n_def)
    have uo: "unat (offset + c) = unat offset + cn"
      using less.prems(3) cn(2) by (simp add: unat_add_lem [THEN iffD1] uc n_def)
    have m: "unat (len - c) < unat len" using cn len by (simp add: ul n_def)
    have r2: "unat (address + c) + unat (len - c) \<le> 512"
      using less.prems(2) cn(2) by (simp add: ua ul a_def n_def)
    have r3: "unat (offset + c) + unat (len - c) < 65536"
      using less.prems(3) cn(2) by (simp add: uo ul n_def)
    define log1 where "log1 = spec_frame dev (bus s) [0x06]"
    define log3 where "log3 = spec_frame dev (spec_read_status dev log1)
                               (write_frame a (map data [unat offset ..< unat offset + cn]))"
    have step: "eeprom_writeArray_loop dev s address offset len data =
       (if spec_status dev log1 AND 0x02 = 0
        then Some (s\<lparr>bus := spec_read_status dev log1, errorCode := EEPROM_WRITE_NOT_ENABLED\<rparr>)
        else case eeprom_wait dev (s\<lparr>bus := log3\<rparr>) of
               None \<Rightarrow> None
             | Some s10 \<Rightarrow>
                 eeprom_writeArray_loop dev s10 (address + c) (offset + c) (len - c) data)"
      unfolding log1_def log3_def c_def a_def uc [symmetric, unfolded c_def]
      by (rule eeprom_writeArray_loop_step [OF False])
    show ?thesis
    proof (cases "spec_status dev log1 AND 0x02 = 0")
      case True
      with less.prems(1) have "s' = s\<lparr>bus := spec_read_status dev log1,
                                     errorCode := EEPROM_WRITE_NOT_ENABLED\<rparr>"
        unfolding step by simp
      then have "spec_writeArray dev (\<lambda>i. data (unat offset + i)) (bus s) (spec_chunks a n) []
                 = Some (bus s', errorCode s')"
        unfolding cs using True by (simp add: Let_def log1_def [symmetric])
      then show ?thesis unfolding a_def n_def ..
    next
      case wel: False
      with less.prems(1) obtain s10 where wt: "eeprom_wait dev (s\<lparr>bus := log3\<rparr>) = Some s10"
        and rec: "eeprom_writeArray_loop dev s10 (address + c) (offset + c) (len - c) data = Some s'"
        unfolding step by (cases "eeprom_wait dev (s\<lparr>bus := log3\<rparr>)") simp_all
      from eeprom_wait_poll [OF wt] obtain p where
        poll: "spec_poll dev log3 p = Some (bus s10)" by auto
      from less.hyps [OF m rec r2 r3] obtain ps where
        "spec_writeArray dev (\<lambda>i. data (unat (offset + c) + i)) (bus s10)
           (spec_chunks (unat (address + c)) (unat (len - c))) ps = Some (bus s', errorCode s')"
        by blast
      then have rest: "spec_writeArray dev (\<lambda>i. data (unat offset + i)) (bus s10)
                         (map (\<lambda>(x, o', l). (x, o' + cn, l)) (spec_chunks (a + cn) (n - cn))) ps
                       = Some (bus s', errorCode s')"
        unfolding spec_writeArray_shift ua ul uo .
      have "spec_writeArray dev (\<lambda>i. data (unat offset + i)) (bus s) (spec_chunks a n) (p # ps)
            = Some (bus s', errorCode s')"
        unfolding cs using wel poll rest
        by (simp add: Let_def log1_def [symmetric] data_slice log3_def [symmetric])
      then show ?thesis unfolding a_def n_def ..
    qed
  qed
qed


lemma eeprom_writeArray_loop_returns:
  assumes "\<forall>t. eeprom_wait dev t \<noteq> None"
  shows "eeprom_writeArray_loop dev s address offset len data \<noteq> None"
proof (induction "unat len" arbitrary: s address offset len rule: less_induct)
  case less
  show ?case
  proof (cases "len = 0")
    case True
    then show ?thesis
      unfolding eeprom_writeArray_loop.simps [of dev s address offset len data] by simp
  next
    case False
    then have len: "0 < unat len" by (simp add: unat_gt_0)
    define c where "c = min (EEPROM_PAGE_SIZE - address mod EEPROM_PAGE_SIZE) len"
    have uc: "unat c = min (16 - unat address mod 16) (unat len)"
      unfolding c_def by (rule unat_chunk)
    have "c \<le> len" unfolding word_le_nat_alt uc by simp
    then have "unat (len - c) = unat len - unat c" by (simp add: unat_sub)
    then have m: "unat (len - c) < unat len" using len uc by simp
    have rec: "eeprom_writeArray_loop dev t (address + c) (offset + c) (len - c) data \<noteq> None" for t
      by (rule less.hyps [OF m])
    define s9 where "s9 = s\<lparr>bus := spec_frame dev (spec_read_status dev (spec_frame dev (bus s) [0x06]))
                               (write_frame (unat address)
                                  (map data [unat offset ..< unat offset + unat c]))\<rparr>"
    obtain s10 where wt: "eeprom_wait dev s9 = Some s10" using assms by auto
    show ?thesis
      unfolding eeprom_writeArray_loop_step [OF False] c_def [symmetric] s9_def [symmetric]
      using rec [of s10] by (simp add: wt)
  qed
qed

lemma chip_fields: "s\<lparr>bus := l, errorCode := e\<rparr> = \<lparr>bus = l, errorCode = e\<rparr>" for s :: "'e chip"
  by (cases s) simp

lemma exchange_extends: "\<exists>ev. exchange dev log bytes = log @ ev"
proof (induction bytes arbitrary: log)
  case Nil
  show ?case by simp
next
  case (Cons b bs)
  from Cons [of "log @ [Transfer b (dev log b)]"] show ?case by auto
qed

lemma spec_frame_extends: "\<exists>ev. spec_frame dev log bytes = log @ ev"
  using exchange_extends [of dev "log @ [Select]" bytes] by (auto simp: spec_frame_def)

lemma spec_poll_extends: "spec_poll dev log p = Some log' \<Longrightarrow> \<exists>ev. log' = log @ ev"
proof (induction p arbitrary: log)
  case 0
  then have "log' = spec_frame dev log [0x05, 0xFF]"
    by (simp add: spec_read_status_def split: if_splits)
  then show ?case using spec_frame_extends [of dev log "[0x05, 0xFF]"] by simp
next
  case (Suc p)
  then have "spec_poll dev (spec_read_status dev log) p = Some log'" by (simp split: if_splits)
  from Suc.IH [OF this] obtain ev where e: "log' = spec_read_status dev log @ ev" by blast
  obtain ev0 where "spec_read_status dev log = log @ ev0"
    unfolding spec_read_status_def using spec_frame_extends by blast
  then have "log' = log @ (ev0 @ ev)" using e by simp
  then show ?case ..
qed

lemma spec_writeArray_extends:
  "spec_writeArray dev d log cs polls = Some (log', e) \<Longrightarrow> \<exists>ev. log' = log @ ev"
proof (induction cs arbitrary: log polls)
  case Nil
  then show ?case by (simp split: if_splits)
next
  case (Cons ch cs)
  obtain x o' l where ch: "ch = (x, o', l)" by (cases ch)
  define log1 where "log1 = spec_frame dev log [0x06]"
  define log2 where "log2 = spec_read_status dev log1"
  define log3 where "log3 = spec_frame dev log2 (write_frame x (map d [o' ..< o' + l]))"
  obtain ev1 where ev1: "log1 = log @ ev1" unfolding log1_def using spec_frame_extends by blast
  obtain ev2 where ev2: "log2 = log1 @ ev2"
    unfolding log2_def spec_read_status_def using spec_frame_extends by blast
  obtain ev3 where ev3: "log3 = log2 @ ev3" unfolding log3_def using spec_frame_extends by blast
  show ?case
  proof (cases "spec_status dev log1 AND 0x02 = 0")
    case True
    with Cons.prems have "log' = log2"
      unfolding ch by (simp add: Let_def log1_def [symmetric] log2_def split: if_splits)
    then show ?thesis using ev1 ev2 by simp
  next
    case False
    with Cons.prems obtain p ps log4 where "spec_poll dev log3 p = Some log4"
      and "spec_writeArray dev d log4 cs ps = Some (log', e)"
      unfolding ch log3_def log2_def
      by (auto simp: Let_def log1_def [symmetric] split: list.splits option.splits)
    from spec_poll_extends [OF this(1)] Cons.IH [OF this(2)]
    show ?thesis using ev1 ev2 ev3 by auto
  qed
qed

lemma wel_check_events:
  "\<exists>r1 r2 st. spec_read_status dev (spec_frame dev log [0x06])
     = log @ [Select, Transfer 0x06 r1, Deselect, Select, Transfer 0x05 r2, Transfer 0xFF st, Deselect]
     \<and> st = spec_status dev (spec_frame dev log [0x06])"
  by (simp add: spec_read_status_def spec_frame_def spec_status_def)


subsection \<open>Runs of the protocol on the scenario devices\<close>

lemma Driver_reply: "Driver log byte = 0x02"
  by (simp add: Driver_def)

lemma Driver_protocol_run:
  "spec_writeArray Driver (\<lambda>i. [1, 2, 3, 4] ! i) [] [(14, 0, 2), (16, 2, 2)] [0, 0] =
   Some ([Select, Transfer 6 2, Deselect, Select, Transfer 5 2, Transfer 255 2,
      Deselect, Select, Transfer 2 2, Transfer 14 2, Transfer 1 2,
      Transfer 2 2, Deselect, Select, Transfer 5 2, Transfer 255 2,
      Deselect, Select, Transfer 6 2, Deselect, Select, Transfer 5 2,
      Transfer 255 2, Deselect, Select, Transfer 2 2, Transfer 16 2,
      Transfer 3 2, Transfer 4 2, Deselect, Select, Transfer 5 2,
      Transfer 255 2, Deselect], EEPROM_OK)"
  by (simp add: Let_def spec_frame_def spec_status_def spec_read_status_def write_frame_def
      Driver_reply upt_conv_Cons)

lemma busy_once_protocol_run:
  "spec_writeArray busy_once (\<lambda>i. [1, 2, 3, 4] ! i) [] [(14, 0, 2), (16, 2, 2)] [1, 0] =
   Some ([Select, Transfer 6 2, Deselect, Select, Transfer 5 2, Transfer 255 2,
      Deselect, Select, Transfer 2 2, Transfer 14 2, Transfer 1 2,
      Transfer 2 2, Deselect, Select, Transfer 5 2, Transfer 255 3,
      Deselect, Select, Transfer 5 2, Transfer 255 2, Deselect, Select,
      Transfer 6 2, Deselect, Select, Transfer 5 2, Transfer 255 2,
      Deselect, Select, Transfer 2 2, Transfer 16 2, Transfer 3 2,
      Transfer 4 2, Deselect, Select, Transfer 5 2, Transfer 255 2,
      Deselect], EEPROM_OK)"
  by (simp add: Let_def spec_frame_def spec_status_def spec_read_status_def write_frame_def
      busy_once_def upt_conv_Cons)

lemma wel_once_protocol_run:
  "spec_writeArray wel_once (\<lambda>i. [1, 2, 3, 4] ! i) [] [(14, 0, 2)] [1] =
   Some ([Select, Transfer 6 2, Deselect, Select, Transfer 5 2, Transfer 255 2,
      Deselect, Select, Transfer 2 2, Transfer 14 2, Transfer 1 2,
      Transfer 2 2, Deselect, Select, Transfer 5 2, Transfer 255 3,
      Deselect, Select, Transfer 5 2, Transfer 255 2, Deselect], EEPROM_OK)"
  by (simp add: Let_def spec_frame_def spec_status_def spec_read_status_def write_frame_def
      wel_once_def upt_conv_Cons)

lemma wel_once_refuses:
  "spec_status wel_once (spec_frame wel_once
     [Select, Transfer 6 2, Deselect, Select, Transfer 5 2, Transfer 255 2,
      Deselect, Select, Transfer 2 2, Transfer 14 2, Transfer 1 2,
      Transfer 2 2, Deselect, Select, Transfer 5 2, Transfer 255 3,
      Deselect, Select, Transfer 5 2, Transfer 255 2, Deselect] [0x06]) = 0"
  "spec_read_status wel_once (spec_frame wel_once
     [Select, Transfer 6 2, Deselect, Select, Transfer 5 2, Transfer 255 2,
      Deselect, Select, Transfer 2 2, Transfer 14 2, Transfer 1 2,
      Transfer 2 2, Deselect, Select, Transfer 5 2, Transfer 255 3,
      Deselect, Select, Transfer 5 2, Transfer 255 2, Deselect] [0x06]) =
     [Select, Transfer 6 2, Deselect, Select, Transfer 5 2, Transfer 255 2,
      Deselect, Select, Transfer 2 2, Transfer 14 2, Transfer 1 2,
      Transfer 2 2, Deselect, Select, Transfer 5 2, Transfer 255 3,
      Deselect, Select, Transfer 5 2, Transfer 255 2, Deselect, Select,
      Transfer 6 2, Deselect, Select, Transfer 5 0, Transfer 255 0, Deselect]"
  by (simp_all add: spec_frame_def spec_status_def spec_read_status_def wel_once_def)


subsection \<open>The range check of the EEPROM driver\<close>

lemma promoted_sum:
  fixes address len :: u16
  shows "sint (ucast address + ucast len - 1 :: c_int) = uint address + uint len - 1"
proof -
  have a: "uint address < 65536" "0 \<le> uint address" using uint_bounded [of address] by simp_all
  have l: "uint len < 65536" "0 \<le> uint len" using uint_bounded [of len] by simp_all
  have "(ucast address + ucast len - 1 :: c_int) = word_of_int (uint address + uint len - 1)"
    by simp
  moreover have "sint (word_of_int (uint address + uint len - 1) :: c_int) = uint address + uint len - 1"
  proof -
    have "- 2147483648 \<le> uint address + uint len - 1" "uint address + uint len - 1 < 2147483648"
      using a l by linarith+
    then have "signed_take_bit 31 (uint address + uint len - 1) = uint address + uint len - 1"
      by (intro signed_take_bit_int_eq_self) simp_all
    then show ?thesis unfolding sint_sbintrunc' by simp
  qed
  ultimately show ?thesis by simp
qed

lemma promoted_range_check:
  fixes address len :: u16
  shows "((ucast EEPROM_MAX_ADDR :: c_int) <s ucast address + ucast len - 1)
         \<longleftrightarrow> 0x1FF < uint address + uint len - 1"
  unfolding word_sless_alt promoted_sum by (simp add: EEPROM_MAX_ADDR_def)

lemma eeprom_in_range:
  fixes address len :: u16
  assumes "unat address + unat len \<le> 512"
  shows "\<not> (ucast EEPROM_MAX_ADDR :: c_int) <s ucast address + ucast len - 1"
proof -
  have "int (unat address) + int (unat len) \<le> 512" using assms by linarith
  then have "uint address + uint len \<le> 512" unfolding uint_nat .
  then show ?thesis unfolding promoted_range_check by simp
qed

subsection \<open>The checks of \<^verbatim>\<open>pageProgram\<close>\<close>

lemma unat_ucast_len: "unat (ucast len :: u32) = unat len" for len :: u16
proof -
  have "unat len < 2 ^ 16" using unsigned_less [of len, where ?'a = nat] by simp
  then have "unat len < 2 ^ 32" by simp
  then have "take_bit 32 (unat len) = unat len" by (rule take_bit_nat_eq_self)
  then show ?thesis by (simp add: unsigned_ucast_eq)
qed

lemma nor_last_address:
  fixes address :: u32 and len :: u16
  assumes "len \<noteq> 0" and "unat address + unat len \<le> 2 ^ 32"
  shows "unat (address + ucast len - 1) = unat address + unat len - 1"
proof -
  have l: "0 < unat len" using assms(1) by (simp add: unat_gt_0)
  have one: "(1 :: u32) \<le> ucast len"
    unfolding word_le_nat_alt unat_ucast_len using l by simp
  have u1: "unat (ucast len - 1 :: u32) = unat len - 1"
    using one by (simp add: unat_sub unat_ucast_len)
  have "unat address + unat (ucast len - 1 :: u32) < 2 ^ LENGTH(32)"
    unfolding u1 using assms(2) l by simp
  then have "unat (address + (ucast len - 1)) = unat address + unat (ucast len - 1 :: u32)"
    by (rule unat_add_lem [THEN iffD1])
  then show ?thesis unfolding u1 using l by (simp add: add_diff_eq)
qed

lemma nor_page_off:
  fixes address :: u32
  shows "unat (address AND 0xFF) = unat address mod 256"
proof -
  have "address AND 0xFF = take_bit 8 address"
    by (simp add: take_bit_eq_mask mask_eq_exp_minus_1)
  then show ?thesis by (simp add: unsigned_take_bit_eq take_bit_eq_mod unat_mod)
qed

lemma nor_page_end:
  fixes address :: u32 and len :: u16
  shows "unat ((address AND 0xFF) + ucast len) = unat address mod 256 + unat len"
proof -
  have "unat len < 65536" using unsigned_less [of len, where ?'a = nat] by simp
  then have "unat (address AND 0xFF) + unat (ucast len :: u32) < 2 ^ LENGTH(32)"
    unfolding nor_page_off unat_ucast_len by simp
  then have "unat ((address AND 0xFF) + ucast len) = unat (address AND 0xFF) + unat (ucast len :: u32)"
    by (rule unat_add_lem [THEN iffD1])
  then show ?thesis unfolding nor_page_off unat_ucast_len .
qed

lemma pageProgram_check1_iff:
  fixes address :: u32 and len :: u16
  assumes "len \<noteq> 0" and "unat address + unat len \<le> 2 ^ 32"
  shows "(address + ucast len - 1 > NOR_MAX_ADDR \<or> len > 256)
         \<longleftrightarrow> (0xFFFFFF < unat address + unat len - 1 \<or> 256 < unat len)"
  unfolding word_less_nat_alt nor_last_address [OF assms] by (simp add: NOR_MAX_ADDR_def)

lemma pageProgram_check2_iff:
  fixes address :: u32 and len :: u16
  shows "((address AND 0xFF) + ucast len > 256) \<longleftrightarrow> 256 < unat address mod 256 + unat len"
  unfolding word_less_nat_alt nor_page_end by simp

text \<open>Where the sum does not wrap, the checks are made in the order of the specification.\<close>

lemma pageProgram_out_of_range:
  fixes address :: u32 and len :: u16
  assumes "len \<noteq> 0" and "unat address + unat len \<le> 2 ^ 32"
    and "0xFFFFFF < unat address + unat len - 1 \<or> 256 < unat len"
  shows "pageProgram dev s address data len = Some (s\<lparr>errorCode := NOR_ADDRESS_OUT_OF_RANGE\<rparr>)"
  using assms(1,3) pageProgram_check1_iff [OF assms(1,2)] by (simp add: pageProgram_def)

lemma pageProgram_out_of_page:
  fixes address :: u32 and len :: u16
  assumes "len \<noteq> 0" and "unat address + unat len - 1 \<le> 0xFFFFFF" and "unat len \<le> 256"
    and "256 < unat address mod 256 + unat len"
  shows "pageProgram dev s address data len = Some (s\<lparr>errorCode := NOR_OUT_OF_PAGE\<rparr>)"
proof -
  have "unat address + unat len \<le> 2 ^ 32" using assms(2) by simp
  from pageProgram_check1_iff [OF assms(1) this] assms(2,3)
  have "\<not> (address + ucast len - 1 > NOR_MAX_ADDR \<or> len > 256)" by simp
  then show ?thesis
    using assms(1,4) pageProgram_check2_iff [of address len] by (simp add: pageProgram_def Let_def)
qed

lemma pageProgram_after_checks:
  fixes address :: u32 and len :: u16
  assumes "len \<noteq> 0" and "unat address + unat len - 1 \<le> 0xFFFFFF" and "unat len \<le> 256"
    and "unat address mod 256 + unat len \<le> 256"
  shows "pageProgram dev s address data len =
     (case data of
        None \<Rightarrow> Some (s\<lparr>errorCode := NOR_NULL_POINTER\<rparr>)
      | Some d \<Rightarrow>
          (let (ok, s1) = isProgramCompatible dev s address d len
           in if \<not> ok then Some (s1\<lparr>errorCode := NOR_NEEDS_ERASE\<rparr>)
              else
                (let (we, s2) = writeEnable dev s1
                 in if \<not> we then Some (s2\<lparr>errorCode := NOR_WRITE_NOT_ENABLED\<rparr>)
                    else
                      (let s3 = select s2;
                           s4 = snd (transfer dev s3 NOR_PAGE_PROGRAM);
                           s5 = sendAddress dev s4 address;
                           s6 = fold (\<lambda>i t. snd (transfer dev t (d i))) [0..<unat len] s5;
                           s7 = deselect s6
                       in case nor_wait dev s7 of
                            None \<Rightarrow> None
                          | Some s8 \<Rightarrow> Some (s8\<lparr>errorCode := NOR_OK\<rparr>)))))"
proof -
  have "unat address + unat len \<le> 2 ^ 32" using assms(2) by simp
  from pageProgram_check1_iff [OF assms(1) this] assms(2,3)
  have c1: "\<not> (address + ucast len - 1 > NOR_MAX_ADDR \<or> len > 256)" by simp
  have c2: "\<not> (address AND 0xFF) + ucast len > 256"
    unfolding pageProgram_check2_iff using assms(4) by simp
  show ?thesis
    unfolding pageProgram_def Let_def using assms(1) c1 c2 by (simp only: if_False)
qed

text \<open>
  Where the sum wraps (the address lies in the last 255 bytes of the 32-bit range),
  check (1) is passed and check (2) latches OUT_OF_PAGE.
\<close>

lemma pageProgram_wrapped:
  fixes address :: u32 and len :: u16
  assumes "unat len \<le> 256" and "2 ^ 32 < unat address + unat len"
  shows "pageProgram dev s address data len = Some (s\<lparr>errorCode := NOR_OUT_OF_PAGE\<rparr>)"
proof -
  define a n where "a = unat address" and "n = unat len"
  have a: "a < 4294967296" unfolding a_def using unsigned_less [of address, where ?'a = nat] by simp
  have n: "n \<le> 256" "4294967296 < a + n" using assms by (simp_all add: a_def n_def)
  have l: "len \<noteq> 0" using n a unfolding n_def by (auto simp: unat_eq_0 [symmetric] simp del: unat_eq_0)
  have "(a + n) mod 4294967296 = (a + n - 4294967296) mod 4294967296"
    using n(2) by (intro le_mod_geq) simp
  also have "\<dots> = a + n - 4294967296" using a n by (intro mod_less) linarith
  finally have m: "(a + n) mod 4294967296 = a + n - 4294967296" .
  have s: "unat (address + ucast len) = a + n - 4294967296"
    unfolding unat_word_ariths unat_ucast_len a_def [symmetric] n_def [symmetric] using m by simp
  have "(1 :: u32) \<le> address + ucast len"
    unfolding word_le_nat_alt s using n(2) by simp
  then have "unat (address + ucast len - 1) = unat (address + ucast len) - unat (1 :: u32)"
    by (rule unat_sub)
  then have s1: "unat (address + ucast len - 1) = a + n - 4294967296 - 1" unfolding s by simp
  have "unat (address + ucast len - 1) \<le> 255" unfolding s1 using a n by linarith
  then have "\<not> address + ucast len - 1 > NOR_MAX_ADDR"
    unfolding word_less_nat_alt by (simp add: NOR_MAX_ADDR_def)
  moreover have "\<not> len > 256" unfolding word_less_nat_alt using n(1) by (simp add: n_def)
  ultimately have c1: "\<not> (address + ucast len - 1 > NOR_MAX_ADDR \<or> len > 256)" by simp
  have lo: "4294967040 \<le> a" using n by linarith
  have "a = (a - 4294967040) + 16777215 * 256" using lo by simp
  then have "a mod 256 = ((a - 4294967040) + 16777215 * 256) mod 256" by simp
  also have "\<dots> = (a - 4294967040) mod 256" by (rule mod_mult_self1)
  also have "\<dots> = a - 4294967040" using a by (intro mod_less) linarith
  finally have "a mod 256 = a - 4294967040" .
  then have "256 < a mod 256 + n" using n lo by linarith
  then have c2: "(address AND 0xFF) + ucast len > 256"
    unfolding pageProgram_check2_iff a_def n_def .
  show ?thesis using l c1 c2 by (simp add: pageProgram_def Let_def)
qed


section \<open>The EEPROM driver: the claims\<close>

text \<open>
  \<^bold>\<open>Claim C3.\<close> An in-range \<^verbatim>\<open>writeArray(address, length, data)\<close> with non-null data
  and \<open>length > 0\<close> is split into chunks: the first has length
  \<open>min (16 - address mod 16) length\<close>, every later one starts at the next 16-byte page
  boundary, and each chunk is emitted as its own WREN frame, WEL check, WRITE frame
  and WIP polling. The theorem states it as a refinement: the call returns a driver
  state exactly when the device lets the protocol \<open>spec_writeArray\<close> run over the chunks
  \<open>spec_chunks\<close> to its end, and then the bus log (replies included) and the latched
  error are those of the protocol. So every WEL check tests the bit of the status
  read after WREN, polling goes on exactly while WIP is read set, an in-range request
  is never refused, and the call fails to return only if some polling never ends; it
  returns whenever every polling loop does.
\<close>

theorem eeprom_writeArray_chunks:
  fixes address len :: u16
  assumes "len \<noteq> 0" and "unat address + unat len \<le> 512"
  shows "(eeprom_writeArray dev s address len (Some data) = Some s' \<longleftrightarrow>
            (\<exists>polls. spec_writeArray dev data (bus s)
                       (spec_chunks (unat address) (unat len)) polls
                     = Some (bus s', errorCode s'))) \<and>
         ((\<forall>t. eeprom_wait dev t \<noteq> None) \<longrightarrow>
            eeprom_writeArray dev s address len (Some data) \<noteq> None) \<and>
         spec_chunks (unat address) (unat len) ! 0
           = (unat address, 0, min (16 - unat address mod 16) (unat len)) \<and>
         (\<forall>i. 0 < i \<and> i < length (spec_chunks (unat address) (unat len)) \<longrightarrow>
            fst (spec_chunks (unat address) (unat len) ! i) = 16 * (unat address div 16 + i))"
proof (intro conjI allI impI)
  have wa: "eeprom_writeArray dev s address len (Some data)
            = eeprom_writeArray_loop dev s address 0 len data"
    using assms(1) eeprom_in_range [OF assms(2)] by (simp add: eeprom_writeArray_def)
  have r: "unat (0 :: u16) + unat len < 65536"
    using unsigned_less [of len, where ?'a = nat] by simp
  show "eeprom_writeArray dev s address len (Some data) = Some s' \<longleftrightarrow>
          (\<exists>polls. spec_writeArray dev data (bus s)
                     (spec_chunks (unat address) (unat len)) polls
                   = Some (bus s', errorCode s'))"
  proof
    assume "eeprom_writeArray dev s address len (Some data) = Some s'"
    then have "eeprom_writeArray_loop dev s address 0 len data = Some s'" unfolding wa .
    from eeprom_writeArray_loop_complete [OF this assms(2) r] show
      "\<exists>polls. spec_writeArray dev data (bus s) (spec_chunks (unat address) (unat len)) polls
               = Some (bus s', errorCode s')" by simp
  next
    assume "\<exists>polls. spec_writeArray dev data (bus s) (spec_chunks (unat address) (unat len)) polls
               = Some (bus s', errorCode s')"
    then obtain polls where
      "spec_writeArray dev (\<lambda>i. data (unat (0 :: u16) + i)) (bus s)
         (spec_chunks (unat address) (unat len)) polls = Some (bus s', errorCode s')" by auto
    from eeprom_writeArray_loop_sound [OF this assms(2) r]
    show "eeprom_writeArray dev s address len (Some data) = Some s'" unfolding wa by simp
  qed
  {
    assume "\<forall>t. eeprom_wait dev t \<noteq> None"
    then show "eeprom_writeArray dev s address len (Some data) \<noteq> None"
      unfolding wa by (rule eeprom_writeArray_loop_returns)
  }
  have n: "0 < unat len" using assms(1) by (simp add: unat_gt_0)
  show "spec_chunks (unat address) (unat len) ! 0
           = (unat address, 0, min (16 - unat address mod 16) (unat len))"
    by (rule spec_chunks_first [OF n])
  {
    fix i
    assume "0 < i \<and> i < length (spec_chunks (unat address) (unat len))"
    then show "fst (spec_chunks (unat address) (unat len) ! i) = 16 * (unat address div 16 + i)"
      by (intro spec_chunks_later) simp_all
  }
qed

text \<open>
  The example of the specification, \<^verbatim>\<open>writeArray(0x000E, 4, [1,2,3,4])\<close> on an empty
  bus log. Its chunks are \<open>[1,2]\<close> at \<open>0x000E\<close> and \<open>[3,4]\<close> at \<open>0x0010\<close>. On the driver of
  \<^verbatim>\<open>example.cpp\<close> the call latches OK and the log holds exactly two WRITE frames,
  \<open>02 0E 01 02\<close> and \<open>02 10 03 04\<close>, each after its WREN frame and status read and
  followed by one status read. On a device that is busy at the first poll the first
  chunk is polled twice.
\<close>

theorem eeprom_writeArray_chunks_witness:
  "spec_chunks 14 4 = [(14, 0, 2), (16, 2, 2)] \<and>
   eeprom_writeArray Driver eeprom_fresh 0x000E 4 (Some (\<lambda>i. [1, 2, 3, 4] ! i)) =
     Some \<lparr>bus =
       [Select, Transfer 6 2, Deselect, Select, Transfer 5 2, Transfer 255 2, Deselect,
        Select, Transfer 2 2, Transfer 14 2, Transfer 1 2, Transfer 2 2, Deselect,
        Select, Transfer 5 2, Transfer 255 2, Deselect,
        Select, Transfer 6 2, Deselect, Select, Transfer 5 2, Transfer 255 2, Deselect,
        Select, Transfer 2 2, Transfer 16 2, Transfer 3 2, Transfer 4 2, Deselect,
        Select, Transfer 5 2, Transfer 255 2, Deselect],
       errorCode = EEPROM_OK\<rparr> \<and>
   eeprom_writeArray busy_once eeprom_fresh 0x000E 4 (Some (\<lambda>i. [1, 2, 3, 4] ! i)) =
     Some \<lparr>bus =
       [Select, Transfer 6 2, Deselect, Select, Transfer 5 2, Transfer 255 2, Deselect,
        Select, Transfer 2 2, Transfer 14 2, Transfer 1 2, Transfer 2 2, Deselect,
        Select, Transfer 5 2, Transfer 255 3, Deselect,
        Select, Transfer 5 2, Transfer 255 2, Deselect,
        Select, Transfer 6 2, Deselect, Select, Transfer 5 2, Transfer 255 2, Deselect,
        Select, Transfer 2 2, Transfer 16 2, Transfer 3 2, Transfer 4 2, Deselect,
        Select, Transfer 5 2, Transfer 255 2, Deselect],
       errorCode = EEPROM_OK\<rparr>"
proof -
  have u: "unat (0x000E :: u16) = 14" "unat (4 :: u16) = 4" by simp_all
  have b: "bus eeprom_fresh = []" by (simp add: eeprom_fresh_def)
  have c: "(4 :: u16) \<noteq> 0" "unat (0x000E :: u16) + unat (4 :: u16) \<le> 512" by simp_all
  note run = eeprom_writeArray_chunks [OF c, THEN conjunct1, THEN iffD2, unfolded u b example_chunks]
  have "eeprom_writeArray Driver eeprom_fresh 0x000E 4 (Some (\<lambda>i. [1, 2, 3, 4] ! i)) = Some
     \<lparr>bus =
       [Select, Transfer 6 2, Deselect, Select, Transfer 5 2, Transfer 255 2, Deselect,
        Select, Transfer 2 2, Transfer 14 2, Transfer 1 2, Transfer 2 2, Deselect,
        Select, Transfer 5 2, Transfer 255 2, Deselect,
        Select, Transfer 6 2, Deselect, Select, Transfer 5 2, Transfer 255 2, Deselect,
        Select, Transfer 2 2, Transfer 16 2, Transfer 3 2, Transfer 4 2, Deselect,
        Select, Transfer 5 2, Transfer 255 2, Deselect],
       errorCode = EEPROM_OK\<rparr>"
    by (rule run, rule exI [of _ "[0, 0]"]) (simp only: chip.simps b Driver_protocol_run)
  moreover have "eeprom_writeArray busy_once eeprom_fresh 0x000E 4 (Some (\<lambda>i. [1, 2, 3, 4] ! i)) = Some
     \<lparr>bus =
       [Select, Transfer 6 2, Deselect, Select, Transfer 5 2, Transfer 255 2, Deselect,
        Select, Transfer 2 2, Transfer 14 2, Transfer 1 2, Transfer 2 2, Deselect,
        Select, Transfer 5 2, Transfer 255 3, Deselect,
        Select, Transfer 5 2, Transfer 255 2, Deselect,
        Select, Transfer 6 2, Deselect, Select, Transfer 5 2, Transfer 255 2, Deselect,
        Select, Transfer 2 2, Transfer 16 2, Transfer 3 2, Transfer 4 2, Deselect,
        Select, Transfer 5 2, Transfer 255 2, Deselect],
       errorCode = EEPROM_OK\<rparr>"
    by (rule run, rule exI [of _ "[1, 0]"]) (simp only: chip.simps b busy_once_protocol_run)
  ultimately show ?thesis using example_chunks by simp
qed

text \<open>
  \<^bold>\<open>Claim C10.\<close> \<^verbatim>\<open>writeArray\<close> of the EEPROM driver is not atomic across chunks. If the
  first \<open>k\<close> chunks of an in-range write go through (each WEL check passes and each
  polling ends: the protocol over these chunks ends with OK at the log \<open>log\<close>) and the
  WEL check before chunk \<open>k\<close> fails (the status read after the next WREN has WEL
  clear), then the call returns with WRITE_NOT_ENABLED latched; the bus log is \<open>log\<close>,
  which extends the log before the call by the \<open>k\<close> chunks, followed by that WREN frame
  and that status read and nothing else: no byte of chunk \<open>k\<close> or of a later chunk.
\<close>

theorem eeprom_writeArray_not_atomic:
  fixes address len :: u16
  assumes "len \<noteq> 0" and "unat address + unat len \<le> 512"
    and "k < length (spec_chunks (unat address) (unat len))"
    and "spec_writeArray dev data (bus s) (take k (spec_chunks (unat address) (unat len))) polls
         = Some (log, EEPROM_OK)"
    and "spec_status dev (spec_frame dev log [0x06]) AND 0x02 = 0"
  shows "eeprom_writeArray dev s address len (Some data) =
           Some \<lparr>bus = spec_read_status dev (spec_frame dev log [0x06]),
                 errorCode = EEPROM_WRITE_NOT_ENABLED\<rparr> \<and>
         length polls = k \<and>
         (\<exists>ev. log = bus s @ ev) \<and>
         (\<exists>r1 r2 st.
            spec_read_status dev (spec_frame dev log [0x06]) =
              log @ [Select, Transfer 0x06 r1, Deselect,
                     Select, Transfer 0x05 r2, Transfer 0xFF st, Deselect] \<and>
            st AND 0x02 = 0)"
proof (intro conjI)
  let ?cs = "spec_chunks (unat address) (unat len)"
  have wa: "eeprom_writeArray dev s address len (Some data)
            = eeprom_writeArray_loop dev s address 0 len data"
    using assms(1) eeprom_in_range [OF assms(2)] by (simp add: eeprom_writeArray_def)
  have r: "unat (0 :: u16) + unat len < 65536"
    using unsigned_less [of len, where ?'a = nat] by simp
  obtain ch rest where d: "drop k ?cs = ch # rest"
    using assms(3) by (cases "drop k ?cs") simp_all
  obtain x o' l where ch: "ch = (x, o', l)" by (cases ch)
  have "spec_writeArray dev data (bus s) (take k ?cs @ drop k ?cs) (polls @ [])
        = spec_writeArray dev data log (drop k ?cs) []"
    by (rule spec_writeArray_append [OF assms(4)])
  also have "\<dots> = Some (spec_read_status dev (spec_frame dev log [0x06]), EEPROM_WRITE_NOT_ENABLED)"
    unfolding d ch using assms(5) by (simp add: Let_def)
  finally have "spec_writeArray dev (\<lambda>i. data (unat (0 :: u16) + i)) (bus s) ?cs polls
        = Some (spec_read_status dev (spec_frame dev log [0x06]), EEPROM_WRITE_NOT_ENABLED)"
    by simp
  from eeprom_writeArray_loop_sound [OF this assms(2) r]
  show "eeprom_writeArray dev s address len (Some data) =
           Some \<lparr>bus = spec_read_status dev (spec_frame dev log [0x06]),
                 errorCode = EEPROM_WRITE_NOT_ENABLED\<rparr>"
    unfolding wa chip_fields .
  have "length polls = length (take k ?cs)" by (rule spec_writeArray_OK_length [OF assms(4)])
  then show "length polls = k" using assms(3) by simp
  show "\<exists>ev. log = bus s @ ev" by (rule spec_writeArray_extends [OF assms(4)])
  from wel_check_events [of dev log] assms(5)
  show "\<exists>r1 r2 st.
            spec_read_status dev (spec_frame dev log [0x06]) =
              log @ [Select, Transfer 0x06 r1, Deselect,
                     Select, Transfer 0x05 r2, Transfer 0xFF st, Deselect] \<and>
            st AND 0x02 = 0" by auto
qed

text \<open>
  A run that stops half way: \<^verbatim>\<open>writeArray(0x000E, 4, [1,2,3,4])\<close> on a device that is
  busy at the first poll and refuses the second WREN. Bytes \<open>[1,2]\<close> are written and
  polled twice, the second WREN and its status read follow, WRITE_NOT_ENABLED is
  latched, and bytes \<open>[3,4]\<close> never reach the bus.
\<close>

theorem eeprom_writeArray_not_atomic_witness:
  "eeprom_writeArray wel_once eeprom_fresh 0x000E 4 (Some (\<lambda>i. [1, 2, 3, 4] ! i)) =
     Some \<lparr>bus =
       [Select, Transfer 6 2, Deselect, Select, Transfer 5 2, Transfer 255 2, Deselect,
        Select, Transfer 2 2, Transfer 14 2, Transfer 1 2, Transfer 2 2, Deselect,
        Select, Transfer 5 2, Transfer 255 3, Deselect,
        Select, Transfer 5 2, Transfer 255 2, Deselect,
        Select, Transfer 6 2, Deselect, Select, Transfer 5 0, Transfer 255 0, Deselect],
       errorCode = EEPROM_WRITE_NOT_ENABLED\<rparr>"
proof -
  have u: "unat (0x000E :: u16) = 14" "unat (4 :: u16) = 4" by simp_all
  have b: "bus eeprom_fresh = []" by (simp add: eeprom_fresh_def)
  have c: "(4 :: u16) \<noteq> 0" "unat (0x000E :: u16) + unat (4 :: u16) \<le> 512" by simp_all
  have k: "1 < length (spec_chunks (unat (0x000E :: u16)) (unat (4 :: u16)))"
    unfolding u example_chunks by simp
  have first: "spec_writeArray wel_once (\<lambda>i. [1, 2, 3, 4] ! i) (bus eeprom_fresh)
                 (take 1 (spec_chunks (unat (0x000E :: u16)) (unat (4 :: u16)))) [1] =
     Some ([Select, Transfer 6 2, Deselect, Select, Transfer 5 2, Transfer 255 2,
      Deselect, Select, Transfer 2 2, Transfer 14 2, Transfer 1 2,
      Transfer 2 2, Deselect, Select, Transfer 5 2, Transfer 255 3,
      Deselect, Select, Transfer 5 2, Transfer 255 2, Deselect], EEPROM_OK)"
    unfolding u b example_chunks using wel_once_protocol_run by simp
  have refused: "spec_status wel_once (spec_frame wel_once
     [Select, Transfer 6 2, Deselect, Select, Transfer 5 2, Transfer 255 2,
      Deselect, Select, Transfer 2 2, Transfer 14 2, Transfer 1 2,
      Transfer 2 2, Deselect, Select, Transfer 5 2, Transfer 255 3,
      Deselect, Select, Transfer 5 2, Transfer 255 2, Deselect] [0x06]) AND 0x02 = 0"
    unfolding wel_once_refuses(1) by simp
  from eeprom_writeArray_not_atomic [OF c k first refused, THEN conjunct1]
  show ?thesis unfolding wel_once_refuses(2) .
qed

text \<open>
  \<^bold>\<open>Claim C4.\<close> The claim is that the range check
  \<^verbatim>\<open>address + length - 1 > MAX_ADDR\<close> of \<^verbatim>\<open>readArray\<close> and \<^verbatim>\<open>writeArray\<close> is computed in
  16 bits and wraps. It is not: both operands are promoted to \<^verbatim>\<open>int\<close> and the sum is
  exact. The theorem is the amended claim: every request with \<open>length > 0\<close> whose last
  byte lies beyond \<open>0x1FF\<close> is rejected with ADDRESS_OUT_OF_RANGE before anything is
  sent, by \<^verbatim>\<open>readArray\<close> and by \<^verbatim>\<open>writeArray\<close>, whatever the sum is modulo \<open>2\<^sup>1\<^sup>6\<close>.
\<close>

theorem eeprom_range_check_exact:
  fixes address len :: u16
  assumes "len \<noteq> 0" and "0x1FF < uint address + uint len - 1"
  shows "eeprom_readArray dev s address len out
           = (s\<lparr>errorCode := EEPROM_ADDRESS_OUT_OF_RANGE\<rparr>, out) \<and>
         eeprom_writeArray dev s address len data
           = Some (s\<lparr>errorCode := EEPROM_ADDRESS_OUT_OF_RANGE\<rparr>)"
  using assms
  by (simp add: eeprom_readArray_def eeprom_writeArray_def promoted_range_check)

text \<open>
  The request \<open>address = 0x1FF\<close>, \<open>length = 0xFFFF\<close>: in 16 bits the sum would be
  \<open>0x1FD\<close> and pass the check; the drivers reject it.
\<close>

theorem eeprom_range_check_exact_witness:
  "(0x1FF + 0xFFFF - 1 :: u16) = 0x1FD \<and>
   eeprom_readArray Driver eeprom_fresh 0x1FF 0xFFFF (Some (\<lambda>i. 0))
     = (eeprom_fresh\<lparr>errorCode := EEPROM_ADDRESS_OUT_OF_RANGE\<rparr>, Some (\<lambda>i. 0)) \<and>
   eeprom_writeArray Driver eeprom_fresh 0x1FF 0xFFFF (Some (\<lambda>i. 0))
     = Some (eeprom_fresh\<lparr>errorCode := EEPROM_ADDRESS_OUT_OF_RANGE\<rparr>)"
  using eeprom_range_check_exact [of "0xFFFF" "0x1FF" Driver eeprom_fresh "Some (\<lambda>i. 0)" "Some (\<lambda>i. 0)"]
  by simp

text \<open>
  Against the claim as stated: no request whose sum overflows 16 bits escapes the
  check. For every \<open>address \<le> 0x1FF\<close> and every length with
  \<open>address + length \<ge> 2\<^sup>1\<^sup>6\<close>, both routines latch ADDRESS_OUT_OF_RANGE and leave the bus
  untouched.
\<close>

theorem eeprom_range_check_wrap_refuted:
  "\<not> (\<exists>(address :: u16) (len :: u16) dev s out data.
        address \<le> 0x1FF \<and> 65536 \<le> uint address + uint len \<and>
        \<not> (eeprom_readArray dev s address len out
             = (s\<lparr>errorCode := EEPROM_ADDRESS_OUT_OF_RANGE\<rparr>, out) \<and>
           eeprom_writeArray dev s address len data
             = Some (s\<lparr>errorCode := EEPROM_ADDRESS_OUT_OF_RANGE\<rparr>)))"
proof -
  have "eeprom_readArray dev s address len out
             = (s\<lparr>errorCode := EEPROM_ADDRESS_OUT_OF_RANGE\<rparr>, out) \<and>
        eeprom_writeArray dev s address len data
             = Some (s\<lparr>errorCode := EEPROM_ADDRESS_OUT_OF_RANGE\<rparr>)"
    if a: "address \<le> 0x1FF" and o: "65536 \<le> uint address + uint len"
    for address len :: u16 and dev s out data
  proof -
    have "uint address \<le> 0x1FF" using a by (simp add: word_le_def)
    then have l: "len \<noteq> 0" using o by auto
    have "0x1FF < uint address + uint len - 1" using o by simp
    then show ?thesis using l
      by (simp add: eeprom_readArray_def eeprom_writeArray_def promoted_range_check)
  qed
  then show ?thesis by blast
qed

section \<open>The NOR flash driver: the claims\<close>

text \<open>
  \<^bold>\<open>Claim C2.\<close> The claim gives the precedence of the checks of \<^verbatim>\<open>pageProgram\<close>, the
  first being \<open>addr + len - 1 > 0xFFFFFF\<close> or \<open>len > 256\<close>. The code computes
  \<^verbatim>\<open>address + length - 1\<close> in \<^verbatim>\<open>uint32_t\<close>: for \<open>address = 0xFFFFFFFF\<close> and \<open>length = 2\<close>
  the sum wraps to \<open>0\<close>, check (1) passes although the last byte lies far beyond
  \<open>0xFFFFFF\<close>, and check (2) latches OUT_OF_PAGE where the claim requires
  ADDRESS_OUT_OF_RANGE. Nothing is sent on the bus. Lemma \<open>pageProgram_wrapped\<close> shows
  the same for every request whose sum exceeds \<open>2\<^sup>3\<^sup>2\<close>; where it does not, lemmas
  \<open>pageProgram_out_of_range\<close>, \<open>pageProgram_out_of_page\<close> and \<open>pageProgram_after_checks\<close>
  give the order of the claim.
\<close>

theorem pageProgram_range_check_wraps:
  "pageProgram dev s 0xFFFFFFFF data 2 = Some (s\<lparr>errorCode := NOR_OUT_OF_PAGE\<rparr>) \<and>
   (0xFFFFFFFF + ucast (2 :: u16) - 1 :: u32) = 0 \<and>
   0xFFFFFF < unat (0xFFFFFFFF :: u32) + unat (2 :: u16) - 1"
  by (simp add: pageProgram_def NOR_MAX_ADDR_def)


end
